theory Spec2Isabelle
  imports Complex_Main "HOL-Library.Multiset" "HOL-Library.Sublist" "HOL-Library.Log_Nat"
begin

section \<open>Strings\<close>

text \<open>
  A Python \<open>str\<close> is a sequence of Unicode code points; a code point is modelled as a
  natural number, so that \<open>length\<close> counts what \<open>len\<close> counts. ASCII literals are
  written through \<open>ustr\<close>.
\<close>

type_synonym pystr = "nat list"

definition ustr :: "string \<Rightarrow> pystr" where
  "ustr s = map of_char s"

text \<open>
  \<open>str.lower()\<close>: an ASCII code point is mapped by the ASCII rule; the lowercase expansion
  of every other code point comes from the Unicode database of the interpreter, which is
  the parameter \<open>tbl\<close> (it receives the whole string and the position, since the capital
  sigma is mapped by its context).
\<close>

definition ascii_lower :: "nat \<Rightarrow> nat" where
  "ascii_lower c = (if 65 \<le> c \<and> c \<le> 90 then c + 32 else c)"

definition py_lower :: "(pystr \<Rightarrow> nat \<Rightarrow> pystr) \<Rightarrow> pystr \<Rightarrow> pystr" where
  "py_lower tbl s =
     concat (map (\<lambda>i. if s ! i < 128 then [ascii_lower (s ! i)] else tbl s i) [0..<length s])"

text \<open>The code points on which \<open>str.split()\<close> without arguments splits.\<close>

definition is_space :: "nat \<Rightarrow> bool" where
  "is_space c \<longleftrightarrow>
     (9 \<le> c \<and> c \<le> 13) \<or> (28 \<le> c \<and> c \<le> 32) \<or> c = 133 \<or> c = 160 \<or> c = 5760 \<or>
     (8192 \<le> c \<and> c \<le> 8202) \<or> c = 8232 \<or> c = 8233 \<or> c = 8239 \<or> c = 8287 \<or> c = 12288"

text \<open>\<open>s.split()\<close>: the maximal runs of non-whitespace code points, in order.\<close>

fun split_ws :: "pystr \<Rightarrow> pystr \<Rightarrow> pystr list" where
  "split_ws cur [] = (if cur = [] then [] else [cur])"
| "split_ws cur (c # cs) =
     (if is_space c then (if cur = [] then split_ws [] cs else cur # split_ws [] cs)
      else split_ws (cur @ [c]) cs)"

definition py_split :: "pystr \<Rightarrow> pystr list" where
  "py_split s = split_ws [] s"

text \<open>\<open>p in s\<close> on strings: \<open>p\<close> occurs in \<open>s\<close> as a contiguous run.\<close>

fun str_in :: "pystr \<Rightarrow> pystr \<Rightarrow> bool" where
  "str_in p [] = (p = [])"
| "str_in p (c # cs) = (prefix p (c # cs) \<or> str_in p cs)"

section \<open>Paywall heuristic\<close>

definition paywall_indicators :: "pystr list" where
  "paywall_indicators =
     [ustr ''subscribe to continue reading'',
      ustr ''this post is for paid subscribers'',
      ustr ''upgrade to paid'',
      ustr ''become a paid subscriber'',
      ustr ''this content is for subscribers only'',
      ustr ''premium subscribers only'',
      ustr ''subscribe now to read more'',
      ustr ''paywall'',
      ustr ''members only'',
      ustr ''paid tier'']"

definition detect_paywall :: "(pystr \<Rightarrow> nat \<Rightarrow> pystr) \<Rightarrow> pystr \<Rightarrow> pystr \<Rightarrow> bool" where
  "detect_paywall tbl content title =
     (let content_lower = py_lower tbl content;
          title_lower = py_lower tbl title
      in if list_ex (\<lambda>indicator. str_in indicator content_lower \<or> str_in indicator title_lower)
              paywall_indicators
         then True
         else if length (py_split content) < 50 then True
         else False)"

section \<open>Categories\<close>

definition source_categories :: "(pystr \<times> pystr) list" where
  "source_categories =
     [(ustr ''4IR - Daily AI News'', ustr ''AI News & Updates''),
      (ustr ''The Strategy Stack'', ustr ''Strategy & Business''),
      (ustr ''The Business Engineer'', ustr ''Strategy & Business''),
      (ustr ''AI Cadence'', ustr ''Strategy & Business''),
      (ustr ''Inference by Sequoia Capital'', ustr ''AI Research & Technical''),
      (ustr ''AI Governance, Ethics and Leadership'', ustr ''AI Governance & Ethics''),
      (ustr ''Luiza'' @ [39] @ ustr ''s Newsletter'', ustr ''AI Governance & Ethics''),
      (ustr ''AI For Humanity'', ustr ''AI Governance & Ethics''),
      (ustr ''AI Newsletter'', ustr ''AI Research & Technical''),
      (ustr ''The Algorithmic Bridge'', ustr ''AI Research & Technical''),
      (ustr ''Lenny'' @ [39] @ ustr ''s Newsletter'', ustr ''Product & Entrepreneurship''),
      (ustr ''The Founders Corner'' @ [172, 198], ustr ''Product & Entrepreneurship''),
      (ustr ''Design with AI'', ustr ''Product & Entrepreneurship''),
      (ustr ''The Product Compass'', ustr ''Product & Entrepreneurship''),
      (ustr ''Build to Launch'', ustr ''Product & Entrepreneurship''),
      (ustr ''Product with Attitude'', ustr ''Product & Entrepreneurship''),
      (ustr ''Leadership in Change'', ustr ''Leadership & Career''),
      (ustr ''AI Can Do That? '' @ [63743, 252, 238, 231], ustr ''Leadership & Career''),
      (ustr ''KP'' @ [39] @ ustr ''s Column'', ustr ''Leadership & Career''),
      (ustr ''The AI Creator Drop'', ustr ''Development & Tools''),
      (ustr ''Sabrina Ramonov '' @ [63743, 252, 231, 209], ustr ''Development & Tools''),
      (ustr ''Tech World With Milan Newsletter'', ustr ''Development & Tools''),
      (ustr ''The Design System Guide'', ustr ''Development & Tools''),
      (ustr ''AI blew my mind'', ustr ''AI Research & Technical''),
      (ustr ''The AI Maker'', ustr ''AI Research & Technical''),
      (ustr ''6 '' @ [39] @ ustr ''P'' @ [39] @ ustr ''s in AI Pods (AI6P)'',
         ustr ''AI Analysis & Insights'')]"

text \<open>\<open>source_categories.get(source, 'Other')\<close>; the keys of the literal are distinct.\<close>

definition categorize_newsletter :: "pystr \<Rightarrow> pystr" where
  "categorize_newsletter source =
     (case map_of source_categories source of Some c \<Rightarrow> c | None \<Rightarrow> ustr ''Other'')"

section \<open>Errors and floating-point values\<close>

text \<open>The exceptions that the modelled code can raise.\<close>

datatype py_error =
    OverflowError | TypeError | KeyError | AttributeError | IndexError | JSONDecodeError
  | KeyboardInterrupt

text \<open>
  A Python \<open>float\<close> is an IEEE binary64 value: a finite value is carried as the rational
  it denotes, next to the two infinities (NaN is produced by none of the operations
  below). The order is the order of the values.
\<close>

datatype pyfloat = NegInf | Fin rat | PosInf

text \<open>Rounding to the nearest integer, a tie going to the even neighbour.\<close>

definition rne :: "rat \<Rightarrow> int" where
  "rne x = (let f = \<lfloor>x\<rfloor>; d = x - of_int f
            in if d < 1 / 2 then f else if 1 / 2 < d then f + 1
               else if even f then f else f + 1)"

text \<open>
  \<open>fexp x\<close> is the binary exponent of a positive rational: \<open>2 powi fexp x \<le> x < 2 powi (fexp x + 1)\<close>.
\<close>

definition fexp :: "rat \<Rightarrow> int" where
  "fexp x = (let k = bitlen (fst (quotient_of x)) - bitlen (snd (quotient_of x))
             in if 2 powi k \<le> x then k else k - 1)"

text \<open>
  \<open>fl x\<close> is the binary64 value nearest to \<open>x\<close> (ties to even): 53 significant bits,
  the spacing fixed at \<open>2 powi (- 1074)\<close> in the subnormal range. \<open>fl_fin\<close> is the result of
  a float operation whose exact value is \<open>x\<close>: it overflows silently to an infinity.
  \<open>true_div\<close> is \<open>a / b\<close> on integers with \<open>b \<noteq> 0\<close>: the correctly rounded
  quotient, and \<open>OverflowError\<close> when it does not fit a float.
\<close>

definition fl :: "rat \<Rightarrow> rat" where
  "fl x = (if x = 0 then 0
           else let u = 2 powi (max (fexp \<bar>x\<bar>) (- 1022) - 52)
                in sgn x * of_int (rne (\<bar>x\<bar> / u)) * u)"

definition fl_fin :: "rat \<Rightarrow> pyfloat" where
  "fl_fin x = (let r = fl x
               in if 2 ^ 1024 \<le> r then PosInf else if r \<le> - (2 ^ 1024) then NegInf else Fin r)"

definition true_div :: "int \<Rightarrow> int \<Rightarrow> py_error + rat" where
  "true_div a b = (let r = fl (of_int a / of_int b)
                   in if 2 ^ 1024 \<le> \<bar>r\<bar> then Inl OverflowError else Inr r)"


instantiation pyfloat :: linorder
begin

fun less_eq_pyfloat :: "pyfloat \<Rightarrow> pyfloat \<Rightarrow> bool" where
  "less_eq_pyfloat NegInf _ = True"
| "less_eq_pyfloat (Fin a) NegInf = False"
| "less_eq_pyfloat (Fin a) (Fin b) = (a \<le> b)"
| "less_eq_pyfloat (Fin a) PosInf = True"
| "less_eq_pyfloat PosInf PosInf = True"
| "less_eq_pyfloat PosInf _ = False"

definition less_pyfloat :: "pyfloat \<Rightarrow> pyfloat \<Rightarrow> bool" where
  "less_pyfloat x y \<longleftrightarrow> x \<le> y \<and> \<not> y \<le> (x :: pyfloat)"

instance
proof
  fix x y z :: pyfloat
  show "x < y \<longleftrightarrow> x \<le> y \<and> \<not> y \<le> x" by (simp add: less_pyfloat_def)
  show "x \<le> x" by (cases x) auto
  show "x \<le> y \<Longrightarrow> y \<le> z \<Longrightarrow> x \<le> z" by (cases x; cases y; cases z) auto
  show "x \<le> y \<Longrightarrow> y \<le> x \<Longrightarrow> x = y" by (cases x; cases y) auto
  show "x \<le> y \<or> y \<le> x" by (cases x; cases y) auto
qed

end

section \<open>Articles\<close>

text \<open>The dataclass \<open>Article\<close>; a \<open>datetime\<close> is a point on the time line.\<close>

type_synonym datetime = int

record article =
  title :: pystr
  link :: pystr
  published :: datetime
  author :: pystr
  content :: pystr
  source :: pystr
  word_count :: int
  comments :: int
  quality_score :: pyfloat
  summary :: pystr
  is_paywalled :: bool

section \<open>Scoring and selection\<close>

text \<open>
  \<open>fadd x b\<close> is float addition of a float and an exactly representable number;
  \<open>py_round x n\<close> is \<open>round(x, n)\<close> on a float: the decimal rounding of the exact value
  (ties to even), converted back to a float.
\<close>

definition fadd :: "pyfloat \<Rightarrow> rat \<Rightarrow> pyfloat" where
  "fadd x b = (case x of Fin a \<Rightarrow> fl_fin (a + b) | NegInf \<Rightarrow> NegInf | PosInf \<Rightarrow> PosInf)"

definition py_round :: "pyfloat \<Rightarrow> nat \<Rightarrow> pyfloat" where
  "py_round x ndigits =
     (case x of Fin a \<Rightarrow> fl_fin (of_int (rne (a * 10 ^ ndigits)) / 10 ^ ndigits)
      | NegInf \<Rightarrow> NegInf | PosInf \<Rightarrow> PosInf)"

definition calculate_quality_score :: "article \<Rightarrow> py_error + pyfloat" where
  "calculate_quality_score a =
     (case true_div (word_count a) 2000 of
        Inl e \<Rightarrow> Inl e
      | Inr q \<Rightarrow>
          let length_score = fl_fin (min q 1 * 50);
              comment_score = (if comments a > 0 then min (comments a * 5) 50 else 0);
              total_score = fadd length_score (of_int comment_score)
          in Inr (py_round total_score 2))"

text \<open>
  The loop that stores the score in every article; an exception raised by the scorer
  leaves the loop.
\<close>

fun score_all :: "article list \<Rightarrow> py_error + article list" where
  "score_all [] = Inr []"
| "score_all (a # as) =
     (case calculate_quality_score a of
        Inl e \<Rightarrow> Inl e
      | Inr s \<Rightarrow> (case score_all as of
                    Inl e \<Rightarrow> Inl e
                  | Inr bs \<Rightarrow> Inr (a\<lparr>quality_score := s\<rparr> # bs)))"

text \<open>
  \<open>sorted(xs, key=key, reverse=True)\<close>: the list is reversed, sorted stably in ascending
  order of the key, and reversed again. \<open>xs[:c]\<close> and \<open>xs[c:]\<close> count a negative
  \<open>c\<close> from the end of the list.
\<close>

definition sorted_reverse :: "('a \<Rightarrow> 'k::linorder) \<Rightarrow> 'a list \<Rightarrow> 'a list" where
  "sorted_reverse key xs = rev (sort_key key (rev xs))"

definition slice_to :: "'a list \<Rightarrow> int \<Rightarrow> 'a list" where
  "slice_to xs c = (if 0 \<le> c then take (nat c) xs else take (nat (int (length xs) + c)) xs)"

definition slice_from :: "'a list \<Rightarrow> int \<Rightarrow> 'a list" where
  "slice_from xs c = (if 0 \<le> c then drop (nat c) xs else drop (nat (int (length xs) + c)) xs)"

definition select_top_articles ::
    "article list \<Rightarrow> int \<Rightarrow> py_error + (article list \<times> article list)" where
  "select_top_articles articles cnt =
     (case score_all articles of
        Inl e \<Rightarrow> Inl e
      | Inr scored \<Rightarrow>
          let sorted_articles = sorted_reverse quality_score scored;
              featured = slice_to sorted_articles cnt;
              others = slice_from sorted_articles cnt
          in Inr (featured, others))"

section \<open>Python values and JSON documents\<close>

text \<open>
  The values that the ledger holds in memory, and the JSON documents of the ledger file.
  A dictionary is the list of its items in insertion order; its keys are strings.
\<close>

datatype pyval =
    PNone
  | PBool bool
  | PInt int
  | PFloat pyfloat
  | PStr pystr
  | PList "pyval list"
  | PDict "(pystr \<times> pyval) list"
  | PDatetime datetime

datatype json =
    JNull
  | JBool bool
  | JInt int
  | JFloat pyfloat
  | JString pystr
  | JArray "json list"
  | JObject "(pystr \<times> json) list"

text \<open>
  \<open>json.dump(x, f, indent=2, default=str)\<close> writes the document \<open>to_json dt_str x\<close>: a
  value that JSON does not know (a \<open>datetime\<close>) is written as the string \<open>str\<close> gives.
  \<open>json.load\<close> reads the document back; an object with a repeated key keeps the position
  of the first occurrence and the value of the last.
\<close>

primrec to_json :: "(datetime \<Rightarrow> pystr) \<Rightarrow> pyval \<Rightarrow> json" where
  "to_json dt_str PNone = JNull"
| "to_json dt_str (PBool b) = JBool b"
| "to_json dt_str (PInt i) = JInt i"
| "to_json dt_str (PFloat x) = JFloat x"
| "to_json dt_str (PStr s) = JString s"
| "to_json dt_str (PList xs) = JArray (map (to_json dt_str) xs)"
| "to_json dt_str (PDict kvs) = JObject (map (map_prod id (to_json dt_str)) kvs)"
| "to_json dt_str (PDatetime d) = JString (dt_str d)"

definition dict_set :: "pystr \<Rightarrow> 'v \<Rightarrow> (pystr \<times> 'v) list \<Rightarrow> (pystr \<times> 'v) list" where
  "dict_set k v d =
     (if k \<in> fst ` set d then map (\<lambda>kv. if fst kv = k then (k, v) else kv) d
      else d @ [(k, v)])"

definition dict_of_pairs :: "(pystr \<times> 'v) list \<Rightarrow> (pystr \<times> 'v) list" where
  "dict_of_pairs kvs = foldl (\<lambda>d kv. dict_set (fst kv) (snd kv) d) [] kvs"

primrec from_json :: "json \<Rightarrow> pyval" where
  "from_json JNull = PNone"
| "from_json (JBool b) = PBool b"
| "from_json (JInt i) = PInt i"
| "from_json (JFloat x) = PFloat x"
| "from_json (JString s) = PStr s"
| "from_json (JArray xs) = PList (map from_json xs)"
| "from_json (JObject kvs) = PDict (dict_of_pairs (map (map_prod id from_json) kvs))"

text \<open>
  The values that JSON represents as they are: no \<open>datetime\<close> inside, and the keys of
  every dictionary distinct (as in every Python \<open>dict\<close>).
\<close>

fun json_native :: "pyval \<Rightarrow> bool" where
  "json_native (PList xs) = list_all json_native xs"
| "json_native (PDict kvs) = (distinct (map fst kvs) \<and> list_all (\<lambda>kv. json_native (snd kv)) kvs)"
| "json_native (PDatetime d) = False"
| "json_native _ = True"

section \<open>State of a run\<close>

text \<open>
  A file holds a JSON document or something else. The rendered digest is the sequence of
  chunks that the renderer appends, each with the data interpolated into it.
\<close>

datatype file_content = JsonDoc json | NotJson

datatype html_chunk =
    Header pystr nat nat
  | FeaturedHeading
  | FeaturedItem article
  | OtherOpen
  | CategoryOpen pystr nat
  | OtherItem article
  | CategoryClose
  | OtherClose
  | Footer

text \<open>
  The generator object and the files it touches: the in-memory ledger, the ledger file
  (\<open>None\<close> when it does not exist) and the digest files written so far.
\<close>

record digest_state =
  processed_articles :: pyval
  processed_file :: "file_content option"
  digest_files :: "(pystr \<times> html_chunk list) list"

definition empty_ledger :: pyval where
  "empty_ledger = PDict [(ustr ''featured'', PList []), (ustr ''reviewed'', PList [])]"

definition load_processed_articles :: "file_content option \<Rightarrow> py_error + pyval" where
  "load_processed_articles f =
     (case f of
        Some (JsonDoc j) \<Rightarrow> Inr (from_json j)
      | Some NotJson \<Rightarrow> Inl JSONDecodeError
      | None \<Rightarrow> Inr empty_ledger)"

definition save_processed_articles :: "(datetime \<Rightarrow> pystr) \<Rightarrow> digest_state \<Rightarrow> digest_state" where
  "save_processed_articles dt_str st =
     st\<lparr>processed_file := Some (JsonDoc (to_json dt_str (processed_articles st)))\<rparr>"

section \<open>The ledger as the fetcher reads it\<close>

text \<open>
  \<open>d.get(k, dflt)\<close>, iteration over a value, and \<open>v[k]\<close> with a string key, with the
  exceptions they raise on values of other types.
\<close>

definition dict_get :: "pyval \<Rightarrow> pystr \<Rightarrow> pyval \<Rightarrow> py_error + pyval" where
  "dict_get d k dflt =
     (case d of
        PDict kvs \<Rightarrow> (case map_of kvs k of Some v \<Rightarrow> Inr v | None \<Rightarrow> Inr dflt)
      | _ \<Rightarrow> Inl AttributeError)"

definition py_iter :: "pyval \<Rightarrow> py_error + pyval list" where
  "py_iter v =
     (case v of
        PList xs \<Rightarrow> Inr xs
      | PStr s \<Rightarrow> Inr (map (\<lambda>c. PStr [c]) s)
      | PDict kvs \<Rightarrow> Inr (map (\<lambda>kv. PStr (fst kv)) kvs)
      | _ \<Rightarrow> Inl TypeError)"

definition getitem_str :: "pyval \<Rightarrow> pystr \<Rightarrow> py_error + pyval" where
  "getitem_str v k =
     (case v of
        PDict kvs \<Rightarrow> (case map_of kvs k of Some x \<Rightarrow> Inr x | None \<Rightarrow> Inl KeyError)
      | _ \<Rightarrow> Inl TypeError)"

text \<open>
  \<open>[art['link'] for art in self.processed_articles.get(bucket, [])]\<close>, and the list that the
  fetcher tests \<open>entry.link\<close> against.
\<close>

fun collect_links :: "pyval list \<Rightarrow> py_error + pyval list" where
  "collect_links [] = Inr []"
| "collect_links (r # rs) =
     (case getitem_str r (ustr ''link'') of
        Inl e \<Rightarrow> Inl e
      | Inr l \<Rightarrow> (case collect_links rs of Inl e \<Rightarrow> Inl e | Inr ls \<Rightarrow> Inr (l # ls)))"

definition bucket_links :: "pyval \<Rightarrow> pystr \<Rightarrow> py_error + pyval list" where
  "bucket_links ledger bucket =
     (case dict_get ledger bucket (PList []) of
        Inl e \<Rightarrow> Inl e
      | Inr b \<Rightarrow> (case py_iter b of Inl e \<Rightarrow> Inl e | Inr rs \<Rightarrow> collect_links rs))"

definition ledger_links :: "pyval \<Rightarrow> py_error + pyval list" where
  "ledger_links ledger =
     (case bucket_links ledger (ustr ''featured'') of
        Inl e \<Rightarrow> Inl e
      | Inr fs \<Rightarrow> (case bucket_links ledger (ustr ''reviewed'') of
                     Inl e \<Rightarrow> Inl e
                   | Inr rs \<Rightarrow> Inr (fs @ rs)))"

section \<open>Feeds\<close>

text \<open>
  A feed entry as the parser returns it. An attribute that is absent is \<open>None\<close>;
  \<open>published_parsed\<close> is absent, present without a value, or a date.
\<close>

datatype parsed_date = NoDate | BadDate | Date datetime

record entry =
  e_title :: "pystr option"
  e_link :: "pystr option"
  e_published_parsed :: parsed_date
  e_author :: "pystr option"
  e_content :: "pystr list option"
  e_summary :: "pystr option"
  e_description :: "pystr option"

record feed =
  feed_title :: "pystr option"
  entries :: "entry list"

text \<open>
  The outside world of a run: the clock (one reading per run, in microseconds since the
  start of year 1), the feed parser, the HTML text extractor, the comment scraper (which
  catches its own failures and returns a number), the Unicode lowercase table, and the
  summarization service, which raises an \<open>Exception\<close>, is interrupted, or returns a
  message of content blocks.
\<close>

datatype block = TextBlock pystr | OtherBlock

datatype api_result = ApiError | Interrupted | Message "block list"

record env =
  now :: datetime
  now_iso :: pystr
  today :: pystr
  timestamp :: pystr
  dt_str :: "datetime \<Rightarrow> pystr"
  create :: "pystr \<Rightarrow> api_result"
  parse :: "pystr \<Rightarrow> py_error + feed"
  get_text :: "pystr \<Rightarrow> pystr"
  scrape_comments :: "pystr \<Rightarrow> int"
  lower_table :: "pystr \<Rightarrow> nat \<Rightarrow> pystr"

definition newsletter_feeds :: "pystr list" where
  "newsletter_feeds =
     [ustr ''https://karozieminski.substack.com/feed'',
      ustr ''https://designwithai.substack.com/feed'',
      ustr ''https://thestrategystack.substack.com/feed'',
      ustr ''https://www.lennysnewsletter.com/feed'',
      ustr ''https://kp.substack.com/feed'',
      ustr ''https://inferencebysequoia.substack.com/feed'',
      ustr ''https://aimaker.substack.com/feed'',
      ustr ''https://www.buildtolaunch.ai/feed'',
      ustr ''https://leadershipinchange10.substack.com/feed'',
      ustr ''https://aiblewmymind.substack.com/feed'',
      ustr ''https://ileanamarcut.substack.com/feed'',
      ustr ''https://sixpeas.substack.com/feed'',
      ustr ''https://aigovernancelead.substack.com/feed'',
      ustr ''https://aihumanity.substack.com/feed'',
      ustr ''https://ab2ai.substack.com/feed'',
      ustr ''https://aicadence.co/feed'',
      ustr ''https://betteconnects.substack.com/feed'',
      ustr ''https://www.sabrina.dev/feed'',
      ustr ''https://businessengineer.ai/feed'',
      ustr ''https://www.thealgorithmicbridge.com/feed'',
      ustr ''https://nlp.elvissaravia.com/feed'',
      ustr ''https://www.4ir.news/feed'',
      ustr ''https://techtiff.substack.com/feed'',
      ustr ''https://www.luizasnewsletter.com/feed'',
      ustr ''https://www.productcompass.pm/feed'',
      ustr ''https://www.the-founders-corner.com/feed'',
      ustr ''https://newsletter.techworld-with-milan.com/feed'',
      ustr ''https://learn.thedesignsystem.guide/feed'']"

text \<open>
  \<open>datetime.now() - timedelta(days=days_back)\<close>: a \<open>timedelta\<close> holds at most 999999999
  days and a \<open>datetime\<close> lies in the years 1 to 9999.
\<close>

definition day :: int where
  "day = 86400000000"

definition cutoff_date :: "datetime \<Rightarrow> int \<Rightarrow> py_error + datetime" where
  "cutoff_date t days_back =
     (if \<bar>days_back\<bar> > 999999999 then Inl OverflowError
      else let c = t - days_back * day
           in if c < 0 \<or> 3652059 * day \<le> c then Inl OverflowError else Inr c)"

definition extract_content :: "env \<Rightarrow> entry \<Rightarrow> py_error + pystr" where
  "extract_content ev e =
     (case e_content e of
        Some [] \<Rightarrow> Inl IndexError
      | Some (v # _) \<Rightarrow> Inr (get_text ev v)
      | None \<Rightarrow>
          (case e_summary e of
             Some s \<Rightarrow> Inr (get_text ev s)
           | None \<Rightarrow>
               (case e_description e of
                  Some d \<Rightarrow> Inr (get_text ev d)
                | None \<Rightarrow> Inr (get_text ev []))))"

text \<open>
  One pass of the loop over the entries of a feed: \<open>Inr None\<close> is \<open>continue\<close>, \<open>Inl\<close> an
  exception, which the handler around the feed catches: the rest of that feed is skipped
  and the articles collected so far are kept.
\<close>

definition process_entry ::
    "env \<Rightarrow> pyval \<Rightarrow> datetime \<Rightarrow> pystr \<Rightarrow> entry \<Rightarrow> py_error + article option" where
  "process_entry ev ledger cutoff source_name e =
     (case e_published_parsed e of
        BadDate \<Rightarrow> Inl TypeError
      | pp \<Rightarrow>
          let pub_date = (case pp of Date d \<Rightarrow> d | _ \<Rightarrow> now ev)
          in if pub_date < cutoff then Inr None
             else
               (case e_link e of
                  None \<Rightarrow> Inl AttributeError
                | Some lnk \<Rightarrow>
                    (case ledger_links ledger of
                       Inl err \<Rightarrow> Inl err
                     | Inr seen \<Rightarrow>
                         if PStr lnk \<in> set seen then Inr None
                         else
                           (case extract_content ev e of
                              Inl err \<Rightarrow> Inl err
                            | Inr txt \<Rightarrow>
                                (case e_title e of
                                   None \<Rightarrow> Inl AttributeError
                                 | Some ttl \<Rightarrow>
                                     Inr (Some
                                       \<lparr>title = ttl, link = lnk, published = pub_date,
                                        author = (case e_author e of Some a \<Rightarrow> a
                                                  | None \<Rightarrow> ustr ''Unknown''),
                                        content = txt, source = source_name,
                                        word_count = int (length (py_split txt)),
                                        comments = scrape_comments ev lnk,
                                        quality_score = Fin 0, summary = [],
                                        is_paywalled =
                                          detect_paywall (lower_table ev) txt ttl\<rparr>))))))"

fun fetch_entries ::
    "env \<Rightarrow> pyval \<Rightarrow> datetime \<Rightarrow> pystr \<Rightarrow> entry list \<Rightarrow> article list \<Rightarrow> article list" where
  "fetch_entries ev ledger cutoff source_name [] articles = articles"
| "fetch_entries ev ledger cutoff source_name (e # es) articles =
     (case process_entry ev ledger cutoff source_name e of
        Inl err \<Rightarrow> articles
      | Inr None \<Rightarrow> fetch_entries ev ledger cutoff source_name es articles
      | Inr (Some a) \<Rightarrow> fetch_entries ev ledger cutoff source_name es (articles @ [a]))"

definition fetch_feed :: "env \<Rightarrow> pyval \<Rightarrow> datetime \<Rightarrow> article list \<Rightarrow> pystr \<Rightarrow> article list" where
  "fetch_feed ev ledger cutoff articles feed_url =
     (case parse ev feed_url of
        Inl err \<Rightarrow> articles
      | Inr fd \<Rightarrow>
          let source_name = (case feed_title fd of Some t \<Rightarrow> t | None \<Rightarrow> feed_url)
          in fetch_entries ev ledger cutoff source_name (entries fd) articles)"

definition fetch_recent_articles :: "env \<Rightarrow> pyval \<Rightarrow> int \<Rightarrow> py_error + article list" where
  "fetch_recent_articles ev ledger days_back =
     (case cutoff_date (now ev) days_back of
        Inl err \<Rightarrow> Inl err
      | Inr cutoff \<Rightarrow> Inr (foldl (fetch_feed ev ledger cutoff) [] newsletter_feeds))"

section \<open>Summaries\<close>

definition prompt :: "article \<Rightarrow> pystr" where
  "prompt a =
     (let pad = replicate 12 32; nl = [10]
      in nl @ pad @ ustr ''Please provide a concise 2-3 sentence summary of this AI/tech article:'' @ nl
         @ pad @ nl
         @ pad @ ustr ''Title: '' @ title a @ nl
         @ pad @ ustr ''Author: '' @ author a @ nl
         @ pad @ ustr ''Source: '' @ source a @ nl
         @ pad @ nl
         @ pad @ ustr ''Content: '' @ take 4000 (content a) @ ustr ''...'' @ nl
         @ pad @ nl
         @ pad @ ustr ''Focus on the key insights, developments, or arguments presented.'' @ nl
         @ pad)"

definition summarize_article :: "env \<Rightarrow> article \<Rightarrow> py_error + pystr" where
  "summarize_article ev a =
     (case create ev (prompt a) of
        ApiError \<Rightarrow> Inr (ustr ''Summary unavailable.'')
      | Interrupted \<Rightarrow> Inl KeyboardInterrupt
      | Message [] \<Rightarrow> Inr (ustr ''Summary unavailable.'')
      | Message (TextBlock t # _) \<Rightarrow> Inr t
      | Message (OtherBlock # _) \<Rightarrow> Inr (ustr ''Summary unavailable.''))"

fun summarize_all :: "env \<Rightarrow> article list \<Rightarrow> py_error + article list" where
  "summarize_all ev [] = Inr []"
| "summarize_all ev (a # as) =
     (case summarize_article ev a of
        Inl err \<Rightarrow> Inl err
      | Inr s \<Rightarrow> (case summarize_all ev as of
                    Inl err \<Rightarrow> Inl err
                  | Inr bs \<Rightarrow> Inr (a\<lparr>summary := s\<rparr> # bs)))"

section \<open>Rendering\<close>

text \<open>
  The grouping loop of the renderer on the dictionary \<open>categorized\<close>, the sort of its items
  by the number of articles, and the sort of each group by score.
\<close>

definition add_to_category ::
    "(pystr \<times> article list) list \<Rightarrow> article \<Rightarrow> (pystr \<times> article list) list" where
  "add_to_category categorized a =
     (let category = categorize_newsletter (source a);
          categorized1 = (if category \<notin> fst ` set categorized
                          then categorized @ [(category, [])] else categorized)
      in map (\<lambda>kv. if fst kv = category then (fst kv, snd kv @ [a]) else kv) categorized1)"

definition categorize_all :: "article list \<Rightarrow> (pystr \<times> article list) list" where
  "categorize_all other_articles = foldl add_to_category [] other_articles"

definition render_category :: "pystr \<times> article list \<Rightarrow> html_chunk list" where
  "render_category x =
     CategoryOpen (fst x) (length (snd x))
       # map OtherItem (sorted_reverse quality_score (snd x)) @ [CategoryClose]"

definition generate_digest_html :: "env \<Rightarrow> article list \<Rightarrow> article list \<Rightarrow> html_chunk list" where
  "generate_digest_html ev featured_articles other_articles =
     [Header (today ev) (length featured_articles) (length other_articles), FeaturedHeading]
     @ map FeaturedItem featured_articles
     @ (if other_articles \<noteq> []
        then let categorized = categorize_all other_articles;
                 sorted_categories = sorted_reverse (\<lambda>x. length (snd x)) categorized
             in [OtherOpen] @ concat (map render_category sorted_categories) @ [OtherClose]
        else [])
     @ [Footer]"

text \<open>The category sections in the order and with the content that the renderer emits.\<close>

definition category_sections :: "article list \<Rightarrow> (pystr \<times> article list) list" where
  "category_sections other_articles =
     map (\<lambda>x. (fst x, sorted_reverse quality_score (snd x)))
       (sorted_reverse (\<lambda>x. length (snd x)) (categorize_all other_articles))"

section \<open>The run\<close>

text \<open>
  The end of the run: the records appended to the two buckets of the ledger (an
  exception leaves the appends made so far in memory), and the run itself, which returns
  the state it leaves and its result or the exception that ended it.
\<close>

definition ledger_record :: "env \<Rightarrow> article \<Rightarrow> pyval" where
  "ledger_record ev a =
     PDict [(ustr ''title'', PStr (title a)),
            (ustr ''link'', PStr (link a)),
            (ustr ''date_processed'', PStr (now_iso ev)),
            (ustr ''quality_score'', PFloat (quality_score a))]"

definition ledger_append :: "pyval \<Rightarrow> pystr \<Rightarrow> pyval \<Rightarrow> py_error + pyval" where
  "ledger_append ledger bucket r =
     (case ledger of
        PDict kvs \<Rightarrow>
          (case map_of kvs bucket of
             None \<Rightarrow> Inl KeyError
           | Some (PList xs) \<Rightarrow>
               Inr (PDict (map (\<lambda>kv. if fst kv = bucket then (bucket, PList (xs @ [r])) else kv) kvs))
           | Some _ \<Rightarrow> Inl AttributeError)
      | _ \<Rightarrow> Inl TypeError)"

fun record_all :: "env \<Rightarrow> pystr \<Rightarrow> article list \<Rightarrow> pyval \<Rightarrow> pyval \<times> py_error option" where
  "record_all ev bucket [] ledger = (ledger, None)"
| "record_all ev bucket (a # as) ledger =
     (case ledger_append ledger bucket (ledger_record ev a) of
        Inl err \<Rightarrow> (ledger, Some err)
      | Inr ledger1 \<Rightarrow> record_all ev bucket as ledger1)"

definition write_file ::
    "pystr \<Rightarrow> html_chunk list \<Rightarrow> (pystr \<times> html_chunk list) list \<Rightarrow> (pystr \<times> html_chunk list) list" where
  "write_file name text files = (name, text) # filter (\<lambda>f. fst f \<noteq> name) files"

definition run_digest ::
    "env \<Rightarrow> digest_state \<Rightarrow> int \<Rightarrow> int \<Rightarrow> digest_state \<times> (py_error + pystr option)" where
  "run_digest ev st days_back featured_count =
     (case fetch_recent_articles ev (processed_articles st) days_back of
        Inl err \<Rightarrow> (st, Inl err)
      | Inr articles \<Rightarrow>
          if articles = [] then (st, Inr None)
          else
            (case select_top_articles articles featured_count of
               Inl err \<Rightarrow> (st, Inl err)
             | Inr (featured0, others) \<Rightarrow>
                 (case summarize_all ev featured0 of
                    Inl err \<Rightarrow> (st, Inl err)
                  | Inr featured \<Rightarrow>
                      let html_digest = generate_digest_html ev featured others;
                          digest_filename = ustr ''ai_digest_'' @ timestamp ev @ ustr ''.html'';
                          st1 = st\<lparr>digest_files :=
                                   write_file digest_filename html_digest (digest_files st)\<rparr>
                      in (case record_all ev (ustr ''featured'') featured (processed_articles st1) of
                            (l1, Some err) \<Rightarrow> (st1\<lparr>processed_articles := l1\<rparr>, Inl err)
                          | (l1, None) \<Rightarrow>
                              (case record_all ev (ustr ''reviewed'') others l1 of
                                 (l2, Some err) \<Rightarrow> (st1\<lparr>processed_articles := l2\<rparr>, Inl err)
                               | (l2, None) \<Rightarrow>
                                   (save_processed_articles (dt_str ev)
                                      (st1\<lparr>processed_articles := l2\<rparr>),
                                    Inr (Some digest_filename)))))))"

section \<open>Examples\<close>

text \<open>An article with a given word count and comment count, for the examples.\<close>

definition example_article :: "int \<Rightarrow> int \<Rightarrow> article" where
  "example_article w c =
     \<lparr>title = [], link = [], published = 0, author = [], content = [], source = [],
      word_count = w, comments = c, quality_score = Fin 0, summary = [],
      is_paywalled = False\<rparr>"

definition example_ledger :: pyval where
  "example_ledger =
     PDict [(ustr ''featured'',
             PList [PDict [(ustr ''title'', PStr (ustr ''A post'')),
                           (ustr ''link'', PStr (ustr ''https://a.example/p/1'')),
                           (ustr ''date_processed'', PStr (ustr ''2025-08-01T10:00:00'')),
                           (ustr ''quality_score'', PFloat (Fin 55))]]),
            (ustr ''reviewed'', PList [])]"

definition example_entry :: entry where
  "example_entry =
     \<lparr>e_title = Some (ustr ''A post''), e_link = Some (ustr ''https://a.example/p/1''),
      e_published_parsed = NoDate, e_author = None, e_content = None,
      e_summary = Some (ustr ''short text''), e_description = None\<rparr>"

definition example_env :: env where
  "example_env =
     \<lparr>now = 63900000000000000, now_iso = ustr ''2025-08-01T10:00:00'',
      today = ustr ''August 01, 2025'', timestamp = ustr ''20250801_100000'',
      dt_str = (\<lambda>d. []), create = (\<lambda>p. ApiError),
      parse = (\<lambda>u. Inr \<lparr>feed_title = None, entries = [example_entry]\<rparr>),
      get_text = (\<lambda>s. s), scrape_comments = (\<lambda>u. 0), lower_table = (\<lambda>s i. [s ! i])\<rparr>"

definition example_other :: "pystr \<Rightarrow> rat \<Rightarrow> article" where
  "example_other src s =
     \<lparr>title = [], link = [], published = 0, author = [], content = [], source = src,
      word_count = 0, comments = 0, quality_score = Fin s, summary = [],
      is_paywalled = False\<rparr>"

text \<open>A ledger record, and ledgers that hold it in one bucket or the other.\<close>

definition example_record :: "(pystr \<times> pyval) list" where
  "example_record =
     [(ustr ''title'', PStr (ustr ''A post'')),
      (ustr ''link'', PStr (ustr ''https://a.example/p/1'')),
      (ustr ''date_processed'', PStr (ustr ''2025-08-01T10:00:00'')),
      (ustr ''quality_score'', PFloat (Fin 55))]"

definition example_featured_items :: "(pystr \<times> pyval) list" where
  "example_featured_items =
     [(ustr ''featured'', PList [PDict example_record]), (ustr ''reviewed'', PList [])]"

definition example_reviewed_items :: "(pystr \<times> pyval) list" where
  "example_reviewed_items =
     [(ustr ''featured'', PList []), (ustr ''reviewed'', PList [PDict example_record])]"

text \<open>Articles of three sources, two of them in the lookup table.\<close>

definition example_others :: "article list" where
  "example_others =
     [example_other (ustr ''Unlisted'') 30, example_other (ustr ''AI Cadence'') 10,
      example_other (ustr ''The Strategy Stack'') 50]"

text \<open>What the renderer guarantees of a category section before it is sorted.\<close>

definition section_ok :: "pystr \<times> article list \<Rightarrow> bool" where
  "section_ok x \<longleftrightarrow> snd x \<noteq> [] \<and> (\<forall>a\<in>set (snd x). categorize_newsletter (source a) = fst x)"

section \<open>Properties of the string operations\<close>

lemma str_in_prefix: "prefix p s \<Longrightarrow> str_in p s"
  by (cases s) auto

lemma str_in_append_left: "str_in p s \<Longrightarrow> str_in p (u @ s)"
  by (induction u) auto

lemma str_in_middle: "str_in p (u @ p @ v)"
  by (rule str_in_append_left) (rule str_in_prefix, simp)

lemma upt_three: "[0..<n + (m + l)] = [0..<n] @ [n..<n + m] @ [n + m..<n + (m + l)]"
proof -
  have "[0..<n + (m + l)] = [0..<n] @ [n..<n + (m + l)]"
    using upt_add_eq_append[of 0 n "m + l"] by simp
  moreover have "[n..<n + (m + l)] = [n..<n + m] @ [n + m..<n + (m + l)]"
    using upt_add_eq_append[of n "n + m" l] by (simp add: add.assoc)
  ultimately show ?thesis by simp
qed

lemma concat_singletons_upt:
  "concat (map (\<lambda>i. [p ! (i - n)]) [n..<n + length p]) = p"
proof -
  have "[n..<n + length p] = map (\<lambda>i. i + n) [0..<length p]"
    by (simp add: map_add_upt add.commute)
  then have "map (\<lambda>i. p ! (i - n)) [n..<n + length p] = map (\<lambda>i. p ! i) [0..<length p]"
    by (simp add: o_def)
  then show ?thesis
    by (simp add: map_nth)
qed

lemma py_lower_keeps:
  assumes "\<forall>c\<in>set p. c < 128 \<and> ascii_lower c = c"
  shows "\<exists>A B. py_lower tbl (u @ p @ v) = A @ p @ B"
proof -
  let ?s = "u @ p @ v"
  let ?f = "\<lambda>i. if ?s ! i < 128 then [ascii_lower (?s ! i)] else tbl ?s i"
  let ?n = "length u"
  have split: "[0..<length ?s] = [0..<?n] @ [?n..<?n + length p] @ [?n + length p..<length ?s]"
    using upt_three[of ?n "length p" "length v"] by simp
  have mid: "map ?f [?n..<?n + length p] = map (\<lambda>i. [p ! (i - ?n)]) [?n..<?n + length p]"
  proof (rule map_cong[OF refl])
    fix i assume "i \<in> set [?n..<?n + length p]"
    then have i: "?n \<le> i" "i - ?n < length p" by auto
    then have "?s ! i = p ! (i - ?n)" by (simp add: nth_append)
    moreover have "p ! (i - ?n) \<in> set p" using i by simp
    ultimately show "?f i = [p ! (i - ?n)]" using assms by auto
  qed
  have "py_lower tbl ?s = concat (map ?f [0..<?n]) @ concat (map ?f [?n..<?n + length p])
          @ concat (map ?f [?n + length p..<length ?s])"
    unfolding py_lower_def by (subst split) simp
  then show ?thesis
    unfolding mid concat_singletons_upt by blast
qed

lemma phrase_is_lower:
  "\<forall>c\<in>set (ustr ''this post is for paid subscribers''). c < 128 \<and> ascii_lower c = c"
  by (simp add: ustr_def ascii_lower_def)

section \<open>C5: the paywall heuristic\<close>

text \<open>
  C5. For every content and title, \<open>detect_paywall\<close> is true whenever the content has
  fewer than 50 whitespace-delimited words, and true whenever the content contains the
  phrase "this post is for paid subscribers", whatever its length and whatever the
  Unicode lowercase table does to the other code points.
\<close>

theorem detect_paywall_flags:
  "(length (py_split txt) < 50 \<longrightarrow> detect_paywall tbl txt ttl) \<and>
   (txt = u @ ustr ''this post is for paid subscribers'' @ v \<longrightarrow>
      detect_paywall tbl txt ttl)"
proof (intro conjI impI)
  assume "length (py_split txt) < 50"
  then show "detect_paywall tbl txt ttl"
    by (simp add: detect_paywall_def Let_def)
next
  let ?p = "ustr ''this post is for paid subscribers''"
  assume c: "txt = u @ ?p @ v"
  obtain A B where "py_lower tbl txt = A @ ?p @ B"
    using py_lower_keeps[OF phrase_is_lower] c by blast
  then have "str_in ?p (py_lower tbl txt)"
    by (simp add: str_in_middle)
  moreover have "?p \<in> set paywall_indicators"
    by (simp add: paywall_indicators_def)
  ultimately have "list_ex (\<lambda>indicator. str_in indicator (py_lower tbl txt)
        \<or> str_in indicator (py_lower tbl ttl)) paywall_indicators"
    unfolding list_ex_iff by blast
  then show "detect_paywall tbl txt ttl"
    by (simp add: detect_paywall_def Let_def)
qed

theorem detect_paywall_flags_witness:
  "length (py_split (ustr ''hello world'')) < 50 \<and>
   detect_paywall (\<lambda>s i. [s ! i]) (ustr ''hello world'') (ustr ''t'') \<and>
   detect_paywall (\<lambda>s i. [s ! i])
     (ustr ''intro '' @ ustr ''this post is for paid subscribers'' @ ustr '' outro'') (ustr ''t'')"
proof -
  have h: "length (py_split (ustr ''hello world'')) < 50"
    by (simp add: py_split_def ustr_def is_space_def)
  have a: "detect_paywall (\<lambda>s i. [s ! i]) (ustr ''hello world'') (ustr ''t'')"
    using detect_paywall_flags[of "ustr ''hello world''" "\<lambda>s i. [s ! i]" "ustr ''t''"] h
    by blast
  have b: "detect_paywall (\<lambda>s i. [s ! i])
     (ustr ''intro '' @ ustr ''this post is for paid subscribers'' @ ustr '' outro'') (ustr ''t'')"
    using detect_paywall_flags[of
        "ustr ''intro '' @ ustr ''this post is for paid subscribers'' @ ustr '' outro''"
        "\<lambda>s i. [s ! i]" "ustr ''t''" "ustr ''intro ''" "ustr '' outro''"]
    by blast
  show ?thesis using h a b by blast
qed

section \<open>C8: the categorization fallback\<close>

text \<open>
  C8. A source name that is not a key of the static lookup table is categorized as
  "Other".
\<close>

theorem categorize_fallback:
  "src \<notin> fst ` set source_categories \<Longrightarrow> categorize_newsletter src = ustr ''Other''"
  by (simp add: categorize_newsletter_def map_of_eq_None_iff[THEN iffD2])

theorem categorize_fallback_witness:
  "ustr ''Some Unlisted Feed'' \<notin> fst ` set source_categories \<and>
   categorize_newsletter (ustr ''Some Unlisted Feed'') = ustr ''Other''"
proof -
  have h: "ustr ''Some Unlisted Feed'' \<notin> fst ` set source_categories"
    by (simp add: source_categories_def ustr_def)
  show ?thesis using h categorize_fallback[OF h] by simp
qed

section \<open>Properties of the rounding model\<close>

lemma rne_lower: "\<lfloor>x\<rfloor> \<le> rne x"
  by (simp add: rne_def Let_def)

lemma rne_upper: "rne x \<le> \<lceil>x\<rceil>"
proof -
  have "x - of_int \<lfloor>x\<rfloor> \<noteq> 0 \<Longrightarrow> \<lfloor>x\<rfloor> + 1 \<le> \<lceil>x\<rceil>"
    by (metis ceiling_altdef eq_iff_diff_eq_0 order_refl)
  moreover have "\<lfloor>x\<rfloor> \<le> \<lceil>x\<rceil>" by (simp add: floor_le_ceiling)
  ultimately show ?thesis
    by (auto simp: rne_def Let_def)
qed

lemma rne_le: "x \<le> of_int N \<Longrightarrow> rne x \<le> N"
  using rne_upper[of x] by (meson ceiling_le order_trans)

lemma rne_ge: "of_int N \<le> x \<Longrightarrow> N \<le> rne x"
  using rne_lower[of x] by (meson le_floor_iff order_trans)

lemma fexp_le:
  assumes "0 < x"
  shows "2 powi fexp x \<le> x"
proof -
  obtain p q where pq: "quotient_of x = (p, q)" by (cases "quotient_of x")
  then have q: "0 < q" and x: "x = of_int p / of_int q"
    using quotient_of_denom_pos quotient_of_div by blast+
  with assms have p: "0 < p"
    by (simp add: zero_less_divide_iff)
  let ?k = "bitlen p - bitlen q"
  have lo: "(2::rat) ^ nat (bitlen p - 1) \<le> of_int p"
    using bitlen_bounds[OF p] by (metis of_int_le_iff of_int_numeral of_int_power)
  have hi: "of_int q < (2::rat) ^ nat (bitlen q)"
    using bitlen_bounds[OF q] by (metis of_int_less_iff of_int_numeral of_int_power)
  have bp: "1 \<le> bitlen p" using p by (simp add: bitlen_alt_def)
  have k1: "?k - 1 = (bitlen p - 1) - bitlen q" by simp
  have "(2::rat) powi (?k - 1) = 2 powi (bitlen p - 1) / 2 powi bitlen q"
    unfolding k1 by (rule power_int_diff) simp
  also have "\<dots> = 2 ^ nat (bitlen p - 1) / 2 ^ nat (bitlen q)"
    using bp bitlen_nonneg[of q] by (simp add: power_int_def)
  also have "\<dots> \<le> of_int p / of_int q"
    using lo hi q p by (intro frac_le) auto
  finally have "(2::rat) powi (?k - 1) \<le> x" using x by simp
  then show ?thesis
    using pq by (simp add: fexp_def Let_def)
qed

lemma fl_nonneg: "0 \<le> x \<Longrightarrow> 0 \<le> fl x"
proof -
  assume x: "0 \<le> x"
  have "0 \<le> rne (\<bar>x\<bar> / 2 powi (max (fexp \<bar>x\<bar>) (- 1022) - 52))"
    by (rule rne_ge) simp
  then show ?thesis
    using x by (simp add: fl_def Let_def sgn_if)
qed

lemma fl_minus: "fl (- x) = - fl x"
  by (simp add: fl_def Let_def sgn_if)

lemma fl_le:
  assumes x: "0 < x" and le: "x \<le> of_int N * 2 powi j"
    and lt: "x < 2 powi (j + 53)" and j: "- 1074 \<le> j"
  shows "fl x \<le> of_int N * 2 powi j"
proof -
  let ?e = "max (fexp \<bar>x\<bar>) (- 1022) - 52"
  let ?u = "(2::rat) powi ?e"
  have "(2::rat) powi fexp x < 2 powi (j + 53)"
    using fexp_le[OF x] lt by simp
  then have "fexp x < j + 53"
    using power_int_increasing[of "j + 53" "fexp x" "2::rat"] by (cases "fexp x < j + 53") auto
  then have e: "?e \<le> j" using x j by simp
  have u: "0 < ?u" by simp
  have "of_int N * (2::rat) powi j / ?u = of_int N * 2 powi (j - ?e)"
    by (simp add: power_int_diff)
  also have "\<dots> = of_int (N * 2 ^ nat (j - ?e))"
    using e by (simp add: power_int_def)
  finally have grid: "of_int N * (2::rat) powi j / ?u = of_int (N * 2 ^ nat (j - ?e))" .
  have "\<bar>x\<bar> / ?u \<le> of_int N * 2 powi j / ?u"
    using x le u by (simp add: divide_right_mono)
  then have "rne (\<bar>x\<bar> / ?u) \<le> N * 2 ^ nat (j - ?e)"
    unfolding grid by (rule rne_le)
  then have "(of_int (rne (\<bar>x\<bar> / ?u)) :: rat) \<le> of_int (N * 2 ^ nat (j - ?e))"
    by (simp only: of_int_le_iff)
  then have "of_int (rne (\<bar>x\<bar> / ?u)) * ?u \<le> of_int N * 2 powi j / ?u * ?u"
    unfolding grid[symmetric] using u by (simp only: mult_le_cancel_right_pos)
  then show ?thesis
    using x u by (simp add: fl_def Let_def)
qed

lemma fl_zero: "fl 0 = 0"
  by (simp add: fl_def)

lemma of_int_le_100: "N \<le> 100 \<Longrightarrow> (of_int N :: rat) \<le> 100"
proof -
  assume "N \<le> 100"
  then have "(of_int N :: rat) \<le> of_int 100" by (simp only: of_int_le_iff)
  then show ?thesis by simp
qed

lemma pow53: "(100::rat) < 2 powi (0 + 53)"
  by (simp add: power_int_def)

lemma fl_le_int:
  assumes "0 \<le> x" "x \<le> of_int N" "N \<le> 100"
  shows "fl x \<le> of_int N"
proof (cases "x = 0")
  case True
  then show ?thesis using assms by (simp add: fl_zero)
next
  case False
  then have x: "0 < x" using assms by simp
  have "x \<le> 100" using assms(2) of_int_le_100[OF assms(3)] by (rule order_trans)
  then have lt: "x < 2 powi (0 + 53)" using pow53 by (rule le_less_trans)
  have le: "x \<le> of_int N * 2 powi 0" using assms(2) by simp
  have "fl x \<le> of_int N * 2 powi 0"
    using x le lt by (rule fl_le) simp
  then show ?thesis by simp
qed

lemma below_overflow: "r \<le> 2 ^ 63 \<Longrightarrow> r < (2::rat) ^ 1024"
proof -
  assume "r \<le> 2 ^ 63"
  moreover have "(2::rat) ^ 63 < 2 ^ 1024"
    by (rule power_strict_increasing) simp_all
  ultimately show ?thesis by (rule le_less_trans)
qed

lemma fl_fin_finite:
  assumes "0 \<le> fl x" "fl x \<le> 2 ^ 63"
  shows "fl_fin x = Fin (fl x)"
proof -
  have a: "\<not> 2 ^ 1024 \<le> fl x" using below_overflow[OF assms(2)] by simp
  have "- (2 ^ 1024) < (0::rat)" by (simp only: neg_less_0_iff_less zero_less_power zero_less_numeral)
  then have b: "\<not> fl x \<le> - (2 ^ 1024)" using assms(1) by linarith
  show ?thesis unfolding fl_fin_def Let_def using a b by (simp only: if_False)
qed

lemma fl_fin_range:
  assumes "0 \<le> x" "x \<le> of_int N" "N \<le> 100"
  shows "\<exists>r. fl_fin x = Fin r \<and> 0 \<le> r \<and> r \<le> of_int N"
proof -
  have lo: "0 \<le> fl x" using assms(1) by (rule fl_nonneg)
  have hi: "fl x \<le> of_int N" using assms by (rule fl_le_int)
  have "(100::rat) \<le> 2 ^ 63" by simp
  with hi of_int_le_100[OF assms(3)] have "fl x \<le> 2 ^ 63" by linarith
  with lo have "fl_fin x = Fin (fl x)" by (rule fl_fin_finite)
  with lo hi show ?thesis by blast
qed

lemma true_div_2000_nonneg:
  assumes "0 \<le> w" "w < 2 ^ 63"
  shows "\<exists>q. true_div w 2000 = Inr q \<and> 0 \<le> q"
proof -
  let ?x = "of_int w / of_int 2000 :: rat"
  have x0: "0 \<le> ?x" using assms by simp
  have lo: "0 \<le> fl ?x" using x0 by (rule fl_nonneg)
  have hi: "fl ?x \<le> 2 ^ 63"
  proof (cases "w = 0")
    case True
    then show ?thesis by (simp add: fl_zero)
  next
    case False
    then have x: "0 < ?x" using assms by simp
    have "w \<le> 2 ^ 63" using assms(2) by simp
    then have "(of_int w :: rat) \<le> of_int (2 ^ 63)" by (simp only: of_int_le_iff)
    then have w: "(of_int w :: rat) \<le> 2 ^ 63" by simp
    have "?x \<le> of_int w" using assms(1) by simp
    with w have xle: "?x \<le> 2 ^ 63" by linarith
    have g: "of_int (2 ^ 52) * 2 powi 11 = (2::rat) ^ 63" by (simp add: power_int_def)
    have a: "?x \<le> of_int (2 ^ 52) * 2 powi 11" unfolding g by (rule xle)
    have "(2::rat) ^ 63 < 2 powi (11 + 53)" by (simp add: power_int_def)
    with xle have b: "?x < 2 powi (11 + 53)" by (rule le_less_trans)
    have "fl ?x \<le> of_int (2 ^ 52) * 2 powi 11"
      using x a b by (rule fl_le) simp
    then show ?thesis unfolding g .
  qed
  have "\<not> 2 ^ 1024 \<le> \<bar>fl ?x\<bar>"
    using below_overflow[OF hi] lo by simp
  then show ?thesis
    unfolding true_div_def Let_def using lo by (simp only: if_False) blast
qed

lemma true_div_2000_ok:
  assumes "\<bar>w\<bar> < 2 ^ 63"
  shows "\<exists>q. true_div w 2000 = Inr q"
proof (cases "0 \<le> w")
  case True
  then show ?thesis using true_div_2000_nonneg[of w] assms by auto
next
  case False
  then have "0 \<le> - w" "- w < 2 ^ 63" using assms by simp_all
  then obtain q where q: "true_div (- w) 2000 = Inr q"
    using true_div_2000_nonneg[of "- w"] by blast
  have "fl (of_int w / of_int 2000) = - fl (of_int (- w) / of_int 2000)"
    using fl_minus[of "of_int (- w) / of_int 2000"] by simp
  then have "\<bar>fl (of_int w / of_int 2000)\<bar> = \<bar>fl (of_int (- w) / of_int 2000)\<bar>"
    by simp
  then have "true_div w 2000 = Inr (fl (of_int w / of_int 2000))"
    using q unfolding true_div_def Let_def by (auto split: if_splits)
  then show ?thesis by blast
qed

lemma py_round2_range:
  assumes "0 \<le> t" "t \<le> 100"
  shows "\<exists>s. py_round (Fin t) 2 = Fin s \<and> 0 \<le> s \<and> s \<le> 100"
proof -
  let ?n = "rne (t * 10 ^ 2)"
  have "0 \<le> ?n" using assms(1) by (intro rne_ge) simp
  moreover have "?n \<le> 10000" using assms(2) by (intro rne_le) simp
  ultimately have "0 \<le> (of_int ?n / 10 ^ 2 :: rat)" "(of_int ?n / 10 ^ 2 :: rat) \<le> of_int 100"
    by simp_all
  from fl_fin_range[OF this] show ?thesis
    by (simp add: py_round_def)
qed

lemma score_range:
  assumes w: "0 \<le> word_count a" "word_count a < 2 ^ 63"
  shows "\<exists>s. calculate_quality_score a = Inr (Fin s) \<and> 0 \<le> s \<and> s \<le> 100"
proof -
  obtain q where q: "true_div (word_count a) 2000 = Inr q" "0 \<le> q"
    using true_div_2000_nonneg[OF w] by blast
  have "0 \<le> min q 1 * 50" "min q 1 * 50 \<le> of_int 50"
    using q(2) by (simp_all add: min_def)
  from fl_fin_range[OF this] obtain l where l: "fl_fin (min q 1 * 50) = Fin l" "0 \<le> l" "l \<le> 50"
    by auto
  let ?cs = "if comments a > 0 then min (comments a * 5) 50 else 0"
  have cs: "0 \<le> ?cs" "?cs \<le> 50" by auto
  have "(of_int ?cs :: rat) \<le> of_int 50" using cs(2) by (simp only: of_int_le_iff)
  moreover have "(0::rat) \<le> of_int ?cs" using cs(1) by (simp only: of_int_0_le_iff)
  ultimately have "0 \<le> l + of_int ?cs" "l + of_int ?cs \<le> of_int 100"
    using l(2,3) by simp_all
  from fl_fin_range[OF this] obtain t where t: "fl_fin (l + of_int ?cs) = Fin t" "0 \<le> t" "t \<le> 100"
    by auto
  obtain s where "py_round (Fin t) 2 = Fin s" "0 \<le> s" "s \<le> 100"
    using py_round2_range[OF t(2,3)] by blast
  then show ?thesis
    using q(1) l(1) t(1) by (simp add: calculate_quality_score_def fadd_def Let_def)
qed

lemma score_formula:
  assumes "0 \<le> comments a"
  shows "calculate_quality_score a =
     (case true_div (word_count a) 2000 of
        Inl e \<Rightarrow> Inl e
      | Inr q \<Rightarrow> Inr (py_round (fadd (fl_fin (min q 1 * 50))
                                     (of_int (min (comments a * 5) 50))) 2))"
  using assms by (auto simp: calculate_quality_score_def Let_def split: sum.splits)

lemma fl_values:
  "fl 1 = 1" "fl (1 / 2) = 1 / 2" "fl 25 = 25" "fl 50 = 50" "fl 100 = 100"
  by code_simp+

lemma rne_of_int: "rne (of_int n) = n"
  by (simp add: rne_def)

lemma rne_numeral: "rne (numeral k) = numeral k"
  using rne_of_int[of "numeral k"] by simp

lemma rne_zero: "rne 0 = 0"
  using rne_of_int[of 0] by simp

lemma true_div_2000_value:
  assumes "0 \<le> w" "w < 2 ^ 63"
  shows "true_div w 2000 = Inr (fl (of_int w / 2000))"
proof -
  obtain q where "true_div w 2000 = Inr q" using true_div_2000_nonneg[OF assms] by blast
  then show ?thesis
    unfolding true_div_def Let_def by (auto split: if_splits)
qed

lemma fl_fin_value:
  assumes "0 \<le> x" "x \<le> 100" "fl x = y"
  shows "fl_fin x = Fin y"
proof -
  have "x \<le> of_int 100" using assms(2) by simp
  with assms(1) obtain r where "fl_fin x = Fin r" using fl_fin_range[of x 100] by auto
  then show ?thesis
    using assms(3) unfolding fl_fin_def Let_def by (auto split: if_splits)
qed

lemma score_2000_10:
  assumes "word_count a = 2000" "comments a = 10"
  shows "calculate_quality_score a = Inr (Fin 100)"
proof -
  have q: "true_div 2000 2000 = Inr 1"
    using true_div_2000_value[of 2000] by (simp add: fl_values)
  have l: "fl_fin 50 = Fin 50" by (rule fl_fin_value) (simp_all add: fl_values)
  have t: "fl_fin 100 = Fin 100" by (rule fl_fin_value) (simp_all add: fl_values)
  show ?thesis
    by (simp add: calculate_quality_score_def assms q l t fadd_def py_round_def rne_numeral)
qed

lemma score_0_0:
  assumes "word_count a = 0" "comments a = 0"
  shows "calculate_quality_score a = Inr (Fin 0)"
proof -
  have q: "true_div 0 2000 = Inr 0"
    using true_div_2000_value[of 0] by (simp add: fl_zero)
  have l: "fl_fin 0 = Fin 0" by (rule fl_fin_value) (simp_all add: fl_zero)
  show ?thesis
    by (simp add: calculate_quality_score_def assms q l fadd_def py_round_def rne_zero)
qed

lemma score_1000_0:
  assumes "word_count a = 1000" "comments a = 0"
  shows "calculate_quality_score a = Inr (Fin 25)"
proof -
  have q: "true_div 1000 2000 = Inr (1 / 2)"
    using true_div_2000_value[of 1000] by (simp add: fl_values)
  have l: "fl_fin 25 = Fin 25" by (rule fl_fin_value) (simp_all add: fl_values)
  show ?thesis
    by (simp add: calculate_quality_score_def assms q l fadd_def py_round_def rne_numeral)
qed

lemma rne_close: "\<bar>x - of_int (rne x)\<bar> \<le> 1 / 2"
proof -
  define d where "d = x - of_int \<lfloor>x\<rfloor>"
  have d: "0 \<le> d" "d < 1" unfolding d_def by linarith+
  have x: "x = of_int \<lfloor>x\<rfloor> + d" unfolding d_def by simp
  consider "d < 1 / 2" | "1 / 2 < d" | "d = 1 / 2" by linarith
  then show ?thesis
  proof cases
    case 1
    then have "rne x = \<lfloor>x\<rfloor>" by (simp add: rne_def Let_def d_def)
    then show ?thesis using 1 d x by simp
  next
    case 2
    then have "rne x = \<lfloor>x\<rfloor> + 1" by (simp add: rne_def Let_def d_def)
    then have "x - of_int (rne x) = d - 1" using x by simp
    then show ?thesis using 2 d by simp
  next
    case 3
    then have "rne x = \<lfloor>x\<rfloor> \<or> rne x = \<lfloor>x\<rfloor> + 1" by (simp add: rne_def Let_def d_def)
    then have "x - of_int (rne x) = d \<or> x - of_int (rne x) = d - 1" using x by auto
    then show ?thesis using 3 by auto
  qed
qed

lemma fl_fin_Fin: "fl_fin x = Fin y \<Longrightarrow> y = fl x"
  by (auto simp: fl_fin_def Let_def split: if_splits)

lemma total_range:
  assumes w: "0 \<le> word_count a" "word_count a < 2 ^ 63" and c: "0 \<le> cs" "cs \<le> 50"
  shows "\<exists>t. fadd (fl_fin (min (fl (of_int (word_count a) / 2000)) 1 * 50)) (of_int cs) = Fin t \<and>
             0 \<le> t \<and> t \<le> 100"
proof -
  obtain q where q: "true_div (word_count a) 2000 = Inr q" "0 \<le> q"
    using true_div_2000_nonneg[OF w] by blast
  have qv: "q = fl (of_int (word_count a) / 2000)"
    using q(1) true_div_2000_value[OF w] by simp
  have "0 \<le> min q 1 * 50" "min q 1 * 50 \<le> of_int 50"
    using q(2) by (simp_all add: min_def)
  from fl_fin_range[OF this] obtain l where l: "fl_fin (min q 1 * 50) = Fin l" "0 \<le> l" "l \<le> 50"
    by auto
  have "(of_int cs :: rat) \<le> of_int 50" using c(2) by (simp only: of_int_le_iff)
  moreover have "(0::rat) \<le> of_int cs" using c(1) by (simp only: of_int_0_le_iff)
  ultimately have "0 \<le> l + of_int cs" "l + of_int cs \<le> of_int 100"
    using l(2,3) by simp_all
  from fl_fin_range[OF this] obtain t where "fl_fin (l + of_int cs) = Fin t" "0 \<le> t" "t \<le> 100"
    by auto
  then show ?thesis
    using l(1) unfolding qv by (simp add: fadd_def)
qed

lemma py_round2_nearest:
  assumes "py_round (Fin t) 2 = Fin s"
  shows "s = fl (of_int (rne (t * 100)) / 100) \<and> \<bar>t * 100 - of_int (rne (t * 100))\<bar> \<le> 1 / 2"
proof -
  have "fl_fin (of_int (rne (t * 100)) / 100) = Fin s"
    using assms by (simp add: py_round_def)
  then have "s = fl (of_int (rne (t * 100)) / 100)" by (rule fl_fin_Fin)
  then show ?thesis using rne_close[of "t * 100"] by simp
qed

lemma true_div_2000_eq:
  assumes "0 \<le> w" "w < 2 ^ 63" "fl (of_int w / 2000) = q"
  shows "true_div w 2000 = Inr q"
  using true_div_2000_value[OF assms(1,2)] assms(3) by simp

lemma score_steps:
  assumes "true_div (word_count a) 2000 = Inr q"
    and "fl_fin (min q 1 * 50) = Fin l"
    and "fl_fin (l + of_int (if comments a > 0 then min (comments a * 5) 50 else 0)) = Fin t"
    and "fl_fin (of_int (rne (t * 10 ^ 2)) / 10 ^ 2) = Fin s"
  shows "calculate_quality_score a = Inr (Fin s)"
  using assms by (simp add: calculate_quality_score_def Let_def fadd_def py_round_def)

lemma score_1_0:
  assumes "word_count a = 1" "comments a = 0"
  shows "calculate_quality_score a = Inr (Fin (1080863910568919 / 36028797018963968))"
proof (rule score_steps[where q = "1152921504606847 / 2305843009213693952"
      and l = "3602879701896397 / 144115188075855872"
      and t = "3602879701896397 / 144115188075855872"])
  show "true_div (word_count a) 2000 = Inr (1152921504606847 / 2305843009213693952)"
    unfolding assms by (rule true_div_2000_eq; code_simp)
  show "fl_fin (min (1152921504606847 / 2305843009213693952) 1 * 50)
          = Fin (3602879701896397 / 144115188075855872)"
    by (rule fl_fin_value; code_simp)
  show "fl_fin (3602879701896397 / 144115188075855872
          + of_int (if comments a > 0 then min (comments a * 5) 50 else 0))
          = Fin (3602879701896397 / 144115188075855872)"
    unfolding assms by (rule fl_fin_value; code_simp)
  show "fl_fin (of_int (rne (3602879701896397 / 144115188075855872 * 10 ^ 2)) / 10 ^ 2)
          = Fin (1080863910568919 / 36028797018963968)"
    by (rule fl_fin_value; code_simp)
qed

lemma score_5_0:
  assumes "word_count a = 5" "comments a = 0"
  shows "calculate_quality_score a = Inr (Fin (1080863910568919 / 9007199254740992))"
proof (rule score_steps[where q = "5764607523034235 / 2305843009213693952"
      and l = "1 / 8" and t = "1 / 8"])
  show "true_div (word_count a) 2000 = Inr (5764607523034235 / 2305843009213693952)"
    unfolding assms by (rule true_div_2000_eq; code_simp)
  show "fl_fin (min (5764607523034235 / 2305843009213693952) 1 * 50) = Fin (1 / 8)"
    by (rule fl_fin_value; code_simp)
  show "fl_fin (1 / 8 + of_int (if comments a > 0 then min (comments a * 5) 50 else 0))
          = Fin (1 / 8)"
    unfolding assms by (rule fl_fin_value; code_simp)
  show "fl_fin (of_int (rne (1 / 8 * 10 ^ 2)) / 10 ^ 2)
          = Fin (1080863910568919 / 9007199254740992)"
    by (rule fl_fin_value; code_simp)
qed

lemma score_1234_3:
  assumes "word_count a = 1234" "comments a = 3"
  shows "calculate_quality_score a = Inr (Fin (6452813841091789 / 140737488355328))"
proof (rule score_steps[where q = "694680242521899 / 1125899906842624"
      and l = "4341751515761869 / 140737488355328"
      and t = "6452813841091789 / 140737488355328"])
  show "true_div (word_count a) 2000 = Inr (694680242521899 / 1125899906842624)"
    unfolding assms by (rule true_div_2000_eq; code_simp)
  show "fl_fin (min (694680242521899 / 1125899906842624) 1 * 50)
          = Fin (4341751515761869 / 140737488355328)"
    by (rule fl_fin_value; code_simp)
  show "fl_fin (4341751515761869 / 140737488355328
          + of_int (if comments a > 0 then min (comments a * 5) 50 else 0))
          = Fin (6452813841091789 / 140737488355328)"
    unfolding assms by (rule fl_fin_value; code_simp)
  show "fl_fin (of_int (rne (6452813841091789 / 140737488355328 * 10 ^ 2)) / 10 ^ 2)
          = Fin (6452813841091789 / 140737488355328)"
    by (rule fl_fin_value; code_simp)
qed

section \<open>Properties of scoring and selection\<close>

lemma score_all_ok:
  "\<forall>a\<in>set as. \<bar>word_count a\<bar> < 2 ^ 63 \<Longrightarrow> \<exists>bs. score_all as = Inr bs"
proof (induction as)
  case Nil
  then show ?case by simp
next
  case (Cons a as)
  then obtain bs where bs: "score_all as = Inr bs" by auto
  have "\<bar>word_count a\<bar> < 2 ^ 63" using Cons.prems by simp
  then obtain q where "true_div (word_count a) 2000 = Inr q"
    using true_div_2000_ok by blast
  then obtain s where "calculate_quality_score a = Inr s"
    by (simp add: calculate_quality_score_def Let_def)
  with bs show ?case by simp
qed

lemma score_all_rel:
  "score_all as = Inr bs \<Longrightarrow>
   list_all2 (\<lambda>a b. \<exists>s. calculate_quality_score a = Inr s \<and> b = a\<lparr>quality_score := s\<rparr>) as bs"
proof (induction as arbitrary: bs)
  case Nil
  then show ?case by simp
next
  case (Cons a as)
  then show ?case
    by (auto split: sum.splits)
qed

lemma sorted_reverse_mset: "mset (sorted_reverse key xs) = mset xs"
  by (simp add: sorted_reverse_def)

lemma sorted_reverse_sorted: "sorted (rev (map key (sorted_reverse key xs)))"
  by (simp add: sorted_reverse_def rev_map[symmetric])

lemma sorted_reverse_stable:
  "filter (\<lambda>x. key x = v) (sorted_reverse key xs) = filter (\<lambda>x. key x = v) xs"
  by (simp add: sorted_reverse_def rev_filter[symmetric] sort_key_stable)

lemma slice_append: "slice_to xs c @ slice_from xs c = xs"
  by (simp add: slice_to_def slice_from_def)

lemma slice_to_nonneg: "0 \<le> c \<Longrightarrow> slice_to xs c = take (nat c) xs"
  by (simp add: slice_to_def)

lemma slice_from_nonneg: "0 \<le> c \<Longrightarrow> slice_from xs c = drop (nat c) xs"
  by (simp add: slice_from_def)

lemma select_top_articles_eq:
  "score_all articles = Inr scored \<Longrightarrow>
   select_top_articles articles cnt =
     Inr (slice_to (sorted_reverse quality_score scored) cnt,
          slice_from (sorted_reverse quality_score scored) cnt)"
  by (simp add: select_top_articles_def Let_def)

section \<open>C1: the quality score\<close>

text \<open>
  C1. For every article whose word count is a count (non-negative, the length of a
  list), \<open>calculate_quality_score\<close> returns a value between 0 and 100, which for a
  comment count that is a count is
  \<open>round(min(word_count / 2000, 1.0) * 50 + min(comments * 5, 50), 2)\<close>: the float nearest
  to \<open>k / 100\<close> for an integer \<open>k\<close> within one half of a hundred times the unrounded sum.
  It is a function of the article; it is 100.0 at (2000, 10), 0.0 at (0, 0) and 25.0 at
  (1000, 0), and where the rounding acts it is 0.03 at (1, 0), the sum being just above
  0.025, and 0.12 at (5, 0), the sum being the tie 0.125 (0.03 and 0.12 are the binary64
  values \<open>1080863910568919 / 2 ^ 55\<close> and \<open>1080863910568919 / 2 ^ 53\<close>).
\<close>

theorem quality_score_spec:
  "(0 \<le> word_count a \<and> word_count a < 2 ^ 63 \<longrightarrow>
      (\<exists>s. calculate_quality_score a = Inr (Fin s) \<and> 0 \<le> s \<and> s \<le> 100 \<and>
           (0 \<le> comments a \<longrightarrow>
              Fin s = py_round (fadd (fl_fin (min (fl (of_int (word_count a) / 2000)) 1 * 50))
                                     (of_int (min (comments a * 5) 50))) 2 \<and>
              (\<exists>t k. fadd (fl_fin (min (fl (of_int (word_count a) / 2000)) 1 * 50))
                            (of_int (min (comments a * 5) 50)) = Fin t \<and>
                     \<bar>t * 100 - of_int k\<bar> \<le> 1 / 2 \<and> s = fl (of_int k / 100))))) \<and>
   calculate_quality_score (b\<lparr>word_count := 2000, comments := 10\<rparr>) = Inr (Fin 100) \<and>
   calculate_quality_score (b\<lparr>word_count := 0, comments := 0\<rparr>) = Inr (Fin 0) \<and>
   calculate_quality_score (b\<lparr>word_count := 1000, comments := 0\<rparr>) = Inr (Fin 25) \<and>
   calculate_quality_score (b\<lparr>word_count := 1, comments := 0\<rparr>)
     = Inr (Fin (1080863910568919 / 36028797018963968)) \<and>
   calculate_quality_score (b\<lparr>word_count := 5, comments := 0\<rparr>)
     = Inr (Fin (1080863910568919 / 9007199254740992))"
proof (intro conjI impI)
  assume h: "0 \<le> word_count a \<and> word_count a < 2 ^ 63"
  then obtain s where s: "calculate_quality_score a = Inr (Fin s)" "0 \<le> s" "s \<le> 100"
    using score_range[of a] by blast
  have q: "true_div (word_count a) 2000 = Inr (fl (of_int (word_count a) / 2000))"
    using h by (intro true_div_2000_value) simp_all
  let ?T = "fadd (fl_fin (min (fl (of_int (word_count a) / 2000)) 1 * 50))
                 (of_int (min (comments a * 5) 50))"
  have "0 \<le> comments a \<longrightarrow>
      Fin s = py_round ?T 2 \<and>
      (\<exists>t k. ?T = Fin t \<and> \<bar>t * 100 - of_int k\<bar> \<le> 1 / 2 \<and> s = fl (of_int k / 100))"
  proof
    assume c: "0 \<le> comments a"
    then have "calculate_quality_score a = Inr (py_round ?T 2)"
      using q by (simp add: score_formula)
    with s(1) have f: "Fin s = py_round ?T 2" by simp
    have "0 \<le> min (comments a * 5) 50" "min (comments a * 5) 50 \<le> 50" using c by simp_all
    with h obtain t where t: "?T = Fin t" using total_range[of a "min (comments a * 5) 50"] by blast
    then have "py_round (Fin t) 2 = Fin s" using f by simp
    from py_round2_nearest[OF this] have "\<bar>t * 100 - of_int (rne (t * 100))\<bar> \<le> 1 / 2"
      and "s = fl (of_int (rne (t * 100)) / 100)" by simp_all
    with t f show "Fin s = py_round ?T 2 \<and>
      (\<exists>t k. ?T = Fin t \<and> \<bar>t * 100 - of_int k\<bar> \<le> 1 / 2 \<and> s = fl (of_int k / 100))"
      by blast
  qed
  with s show "\<exists>s. calculate_quality_score a = Inr (Fin s) \<and> 0 \<le> s \<and> s \<le> 100 \<and>
           (0 \<le> comments a \<longrightarrow>
              Fin s = py_round ?T 2 \<and>
              (\<exists>t k. ?T = Fin t \<and> \<bar>t * 100 - of_int k\<bar> \<le> 1 / 2 \<and> s = fl (of_int k / 100)))"
    by blast
next
  show "calculate_quality_score (b\<lparr>word_count := 2000, comments := 10\<rparr>) = Inr (Fin 100)"
    by (rule score_2000_10) simp_all
  show "calculate_quality_score (b\<lparr>word_count := 0, comments := 0\<rparr>) = Inr (Fin 0)"
    by (rule score_0_0) simp_all
  show "calculate_quality_score (b\<lparr>word_count := 1000, comments := 0\<rparr>) = Inr (Fin 25)"
    by (rule score_1000_0) simp_all
  show "calculate_quality_score (b\<lparr>word_count := 1, comments := 0\<rparr>)
     = Inr (Fin (1080863910568919 / 36028797018963968))"
    by (rule score_1_0) simp_all
  show "calculate_quality_score (b\<lparr>word_count := 5, comments := 0\<rparr>)
     = Inr (Fin (1080863910568919 / 9007199254740992))"
    by (rule score_5_0) simp_all
qed

theorem quality_score_spec_witness:
  "0 \<le> word_count (example_article 1234 3) \<and> word_count (example_article 1234 3) < 2 ^ 63 \<and>
   0 \<le> comments (example_article 1234 3) \<and>
   calculate_quality_score (example_article 1234 3)
     = Inr (Fin (6452813841091789 / 140737488355328)) \<and>
   (0::rat) \<le> 6452813841091789 / 140737488355328 \<and>
   (6452813841091789 / 140737488355328 :: rat) \<le> 100 \<and>
   (\<exists>k. (6452813841091789 / 140737488355328 :: rat) = fl (of_int k / 100))"
proof -
  have w: "word_count (example_article 1234 3) = 1234" "comments (example_article 1234 3) = 3"
    by (simp_all add: example_article_def)
  have h: "0 \<le> word_count (example_article 1234 3) \<and> word_count (example_article 1234 3) < 2 ^ 63"
    and c: "0 \<le> comments (example_article 1234 3)"
    unfolding w by simp_all
  have v: "calculate_quality_score (example_article 1234 3)
     = Inr (Fin (6452813841091789 / 140737488355328))"
    using w by (rule score_1234_3)
  from quality_score_spec[of "example_article 1234 3" "example_article 0 0"] h c
  obtain s where s: "calculate_quality_score (example_article 1234 3) = Inr (Fin s)"
    "0 \<le> s" "s \<le> 100" "\<exists>k. s = fl (of_int k / 100)"
    by blast
  have "s = 6452813841091789 / 140737488355328" using s(1) v by simp
  then show ?thesis
    using h c v s(2,3,4) by blast
qed

section \<open>C2 and C10: selection\<close>

text \<open>
  C2. For every list of articles (word counts within the range of a list length) and
  every count, \<open>select_top_articles\<close> returns a pair \<open>(featured, others)\<close>: the scored
  input articles, each exactly once, in non-increasing order of score, articles of
  equal score in their original order; for a count \<open>cnt \<ge> 0\<close>, \<open>featured\<close> is the first
  \<open>cnt\<close> elements of the concatenation.
\<close>

theorem select_top_articles_partition:
  assumes "\<forall>a\<in>set articles. \<bar>word_count a\<bar> < 2 ^ 63"
  shows "\<exists>scored featured others.
     score_all articles = Inr scored \<and>
     select_top_articles articles cnt = Inr (featured, others) \<and>
     list_all2 (\<lambda>a b. \<exists>s. calculate_quality_score a = Inr s \<and> b = a\<lparr>quality_score := s\<rparr>)
       articles scored \<and>
     mset (featured @ others) = mset scored \<and>
     sorted (rev (map quality_score (featured @ others))) \<and>
     (\<forall>v. filter (\<lambda>a. quality_score a = v) (featured @ others)
          = filter (\<lambda>a. quality_score a = v) scored) \<and>
     (0 \<le> cnt \<longrightarrow> featured = take (nat cnt) (featured @ others))"
proof -
  obtain scored where sc: "score_all articles = Inr scored"
    using score_all_ok[OF assms] by blast
  let ?s = "sorted_reverse quality_score scored"
  let ?f = "slice_to ?s cnt" and ?o = "slice_from ?s cnt"
  have sel: "select_top_articles articles cnt = Inr (?f, ?o)"
    using sc by (rule select_top_articles_eq)
  have cat: "?f @ ?o = ?s" by (rule slice_append)
  have "0 \<le> cnt \<longrightarrow> ?f = take (nat cnt) (?f @ ?o)"
    unfolding cat by (simp add: slice_to_nonneg)
  moreover have "mset (?f @ ?o) = mset scored"
    unfolding cat by (rule sorted_reverse_mset)
  moreover have "sorted (rev (map quality_score (?f @ ?o)))"
    unfolding cat by (rule sorted_reverse_sorted)
  moreover have "\<forall>v. filter (\<lambda>a. quality_score a = v) (?f @ ?o)
          = filter (\<lambda>a. quality_score a = v) scored"
    unfolding cat by (simp add: sorted_reverse_stable)
  ultimately show ?thesis
    using sc sel score_all_rel[OF sc] by blast
qed

theorem select_top_articles_partition_witness:
  "\<bar>word_count (example_article 100 0)\<bar> < 2 ^ 63 \<and>
   \<bar>word_count (example_article 2000 4)\<bar> < 2 ^ 63 \<and>
   \<bar>word_count (example_article 900 1)\<bar> < 2 ^ 63 \<and>
   (\<exists>featured others.
      select_top_articles
        [example_article 100 0, example_article 2000 4, example_article 900 1] 2
        = Inr (featured, others) \<and>
      sorted (rev (map quality_score (featured @ others))) \<and>
      featured = take 2 (featured @ others))"
proof -
  have h: "\<forall>a\<in>set [example_article 100 0, example_article 2000 4, example_article 900 1].
       \<bar>word_count a\<bar> < 2 ^ 63"
    by (simp add: example_article_def)
  from select_top_articles_partition[OF h, of 2]
  obtain featured others where
    "select_top_articles
        [example_article 100 0, example_article 2000 4, example_article 900 1] 2
        = Inr (featured, others)"
    "sorted (rev (map quality_score (featured @ others)))"
    "(0::int) \<le> 2 \<longrightarrow> featured = take (nat 2) (featured @ others)"
    by blast
  then show ?thesis
    using h by auto
qed

text \<open>
  C10. For a list of \<open>n\<close> articles and a requested count \<open>cnt \<ge> 0\<close>, the featured list
  has length \<open>min cnt n\<close> and the others list has length \<open>n - min cnt n\<close>; when
  \<open>cnt \<ge> n\<close> every article is featured and the others list is empty.
\<close>

theorem select_top_articles_lengths:
  assumes "\<forall>a\<in>set articles. \<bar>word_count a\<bar> < 2 ^ 63" and "0 \<le> cnt"
  shows "\<exists>featured others.
     select_top_articles articles cnt = Inr (featured, others) \<and>
     int (length featured) = min cnt (int (length articles)) \<and>
     int (length others) = int (length articles) - min cnt (int (length articles)) \<and>
     (int (length articles) \<le> cnt \<longrightarrow> length featured = length articles \<and> others = [])"
proof -
  obtain scored where sc: "score_all articles = Inr scored"
    using score_all_ok[OF assms(1)] by blast
  have len: "length scored = length articles"
    using score_all_rel[OF sc] by (simp add: list_all2_lengthD)
  let ?s = "sorted_reverse quality_score scored"
  have ls: "length ?s = length articles"
    using len by (metis sorted_reverse_mset size_mset)
  have sel: "select_top_articles articles cnt = Inr (take (nat cnt) ?s, drop (nat cnt) ?s)"
    using select_top_articles_eq[OF sc, of cnt] assms(2)
    by (simp add: slice_to_nonneg slice_from_nonneg)
  have "int (length (take (nat cnt) ?s)) = min cnt (int (length articles))"
    using assms(2) ls by (auto simp: min_def)
  moreover have "int (length (drop (nat cnt) ?s)) = int (length articles) - min cnt (int (length articles))"
    using assms(2) ls by (auto simp: min_def)
  moreover have "int (length articles) \<le> cnt \<longrightarrow>
      length (take (nat cnt) ?s) = length articles \<and> drop (nat cnt) ?s = []"
    using assms(2) ls by auto
  ultimately show ?thesis using sel by blast
qed

theorem select_top_articles_lengths_witness:
  "\<bar>word_count (example_article 100 0)\<bar> < 2 ^ 63 \<and>
   \<bar>word_count (example_article 2000 4)\<bar> < 2 ^ 63 \<and>
   \<bar>word_count (example_article 900 1)\<bar> < 2 ^ 63 \<and> (0::int) \<le> 2 \<and>
   (\<exists>featured others.
      select_top_articles
        [example_article 100 0, example_article 2000 4, example_article 900 1] 2
        = Inr (featured, others) \<and>
      length featured = 2 \<and> length others = 1)"
proof -
  have h: "\<forall>a\<in>set [example_article 100 0, example_article 2000 4, example_article 900 1].
       \<bar>word_count a\<bar> < 2 ^ 63"
    by (simp add: example_article_def)
  have n: "(0::int) \<le> 2" by simp
  show ?thesis
    using h n select_top_articles_lengths[OF h n] by auto
qed

section \<open>C4: the ledger round trip\<close>

lemma dict_set_fresh: "k \<notin> fst ` set d \<Longrightarrow> dict_set k v d = d @ [(k, v)]"
  by (simp add: dict_set_def)

lemma dict_of_pairs_foldl:
  "distinct (map fst (d @ kvs)) \<Longrightarrow>
   foldl (\<lambda>d kv. dict_set (fst kv) (snd kv) d) d kvs = d @ kvs"
proof (induction kvs arbitrary: d)
  case Nil
  then show ?case by simp
next
  case (Cons kv kvs)
  have fresh: "fst kv \<notin> fst ` set d" using Cons.prems by auto
  have "distinct (map fst ((d @ [kv]) @ kvs))" using Cons.prems by simp
  from Cons.IH[OF this] show ?case
    by (simp add: dict_set_fresh[OF fresh])
qed

lemma dict_of_pairs_distinct: "distinct (map fst kvs) \<Longrightarrow> dict_of_pairs kvs = kvs"
  using dict_of_pairs_foldl[of "[]" kvs] by (simp add: dict_of_pairs_def)

lemma from_json_to_json: "json_native v \<Longrightarrow> from_json (to_json f v) = v"
proof (induction v)
  case (PList xs)
  then have "map (from_json \<circ> to_json f) xs = xs"
    by (intro map_idI) (auto simp: list_all_iff)
  then show ?case by simp
next
  case (PDict kvs)
  have each: "\<And>kv. kv \<in> set kvs \<Longrightarrow>
      map_prod id from_json (map_prod id (to_json f) kv) = kv"
  proof -
    fix kv assume kv: "kv \<in> set kvs"
    obtain k v where [simp]: "kv = (k, v)" by (cases kv)
    have "json_native v" using PDict.prems kv by (auto simp: list_all_iff)
    moreover have "v \<in> Basic_BNFs.snds kv" by simp
    ultimately have "from_json (to_json f v) = v" using PDict.IH kv by blast
    then show "map_prod id from_json (map_prod id (to_json f) kv) = kv" by simp
  qed
  have m: "map (map_prod id from_json) (map (map_prod id (to_json f)) kvs) = kvs"
    using each by (simp add: map_idI)
  have "distinct (map fst kvs)" using PDict.prems by simp
  then have "dict_of_pairs kvs = kvs" by (rule dict_of_pairs_distinct)
  then have "from_json (JObject (map (map_prod id (to_json f)) kvs)) = PDict kvs"
    unfolding from_json.simps m by simp
  then show ?case by simp
qed simp_all

text \<open>
  C4. Saving a well-formed ledger state (a JSON-native value: strings, numbers, lists and
  dictionaries, such as the records the run appends) and loading it again reconstructs
  exactly that state; so for the empty default; a \<open>datetime\<close> value is written as a
  string and comes back as that string.
\<close>

theorem ledger_round_trip:
  "(json_native x \<longrightarrow>
      load_processed_articles
        (processed_file (save_processed_articles f (st\<lparr>processed_articles := x\<rparr>))) = Inr x) \<and>
   load_processed_articles
     (processed_file (save_processed_articles f (st\<lparr>processed_articles := empty_ledger\<rparr>)))
     = Inr empty_ledger \<and>
   from_json (to_json f (PDatetime d)) = PStr (f d)"
proof -
  have "json_native empty_ledger" by (simp add: empty_ledger_def ustr_def)
  then show ?thesis
    by (simp add: load_processed_articles_def save_processed_articles_def from_json_to_json)
qed

theorem ledger_round_trip_witness:
  "json_native example_ledger \<and>
   load_processed_articles
     (processed_file (save_processed_articles (\<lambda>d. [])
        \<lparr>processed_articles = example_ledger, processed_file = None, digest_files = []\<rparr>))
     = Inr example_ledger"
proof -
  have h: "json_native example_ledger"
    by (simp add: example_ledger_def ustr_def)
  show ?thesis
    using h ledger_round_trip[of example_ledger "\<lambda>d. []"
        "\<lparr>processed_articles = example_ledger, processed_file = None, digest_files = []\<rparr>"]
    by simp
qed

section \<open>C3: deduplication against the ledger\<close>

lemma process_entry_new:
  assumes "ledger_links ledger = Inr seen" "PStr L \<in> set seen"
    and "process_entry ev ledger cutoff source_name e = Inr (Some a)"
  shows "link a \<noteq> L"
  using assms
  by (auto simp: process_entry_def Let_def
      split: parsed_date.splits option.splits sum.splits if_splits)

lemma collect_links_member:
  "collect_links rs = Inr ls \<Longrightarrow> PDict d \<in> set rs \<Longrightarrow>
   map_of d (ustr ''link'') = Some v \<Longrightarrow> v \<in> set ls"
proof (induction rs arbitrary: ls)
  case Nil
  then show ?case by simp
next
  case (Cons r rs)
  from Cons.prems(1) obtain l ls' where l: "getitem_str r (ustr ''link'') = Inr l"
    and ls': "collect_links rs = Inr ls'" and ls: "ls = l # ls'"
    by (auto split: sum.splits)
  show ?case
  proof (cases "r = PDict d")
    case True
    then have "l = v" using l Cons.prems(3) by (simp add: getitem_str_def)
    then show ?thesis using ls by simp
  next
    case False
    then have "PDict d \<in> set rs" using Cons.prems(2) by simp
    then show ?thesis using Cons.IH[OF ls' _ Cons.prems(3)] ls by simp
  qed
qed

lemma bucket_links_member:
  assumes "map_of kvs bucket = Some (PList rs)" "PDict d \<in> set rs"
    and "map_of d (ustr ''link'') = Some v"
    and "bucket_links (PDict kvs) bucket = Inr ls"
  shows "v \<in> set ls"
  using assms collect_links_member[of rs ls d v]
  by (simp add: bucket_links_def dict_get_def py_iter_def)

lemma ledger_links_member:
  assumes "bucket = ustr ''featured'' \<or> bucket = ustr ''reviewed''"
    and "map_of kvs bucket = Some (PList rs)" "PDict d \<in> set rs"
    and "map_of d (ustr ''link'') = Some v"
    and "ledger_links (PDict kvs) = Inr seen"
  shows "v \<in> set seen"
proof -
  from assms(5) obtain fs rv where f: "bucket_links (PDict kvs) (ustr ''featured'') = Inr fs"
    and r: "bucket_links (PDict kvs) (ustr ''reviewed'') = Inr rv" and s: "seen = fs @ rv"
    by (auto simp: ledger_links_def split: sum.splits)
  from assms(1) show ?thesis
  proof
    assume "bucket = ustr ''featured''"
    then have "v \<in> set fs" using bucket_links_member[OF assms(2,3,4)] f by simp
    then show ?thesis using s by simp
  next
    assume "bucket = ustr ''reviewed''"
    then have "v \<in> set rv" using bucket_links_member[OF assms(2,3,4)] r by simp
    then show ?thesis using s by simp
  qed
qed

lemma process_entry_needs_links:
  "process_entry ev ledger cutoff source_name e = Inr (Some a) \<Longrightarrow>
   \<exists>seen. ledger_links ledger = Inr seen"
  by (auto simp: process_entry_def Let_def
      split: parsed_date.splits option.splits sum.splits if_splits)

lemma process_entry_skips:
  assumes "bucket = ustr ''featured'' \<or> bucket = ustr ''reviewed''"
    and "map_of kvs bucket = Some (PList rs)" "PDict d \<in> set rs"
    and "map_of d (ustr ''link'') = Some (PStr L)"
    and "process_entry ev (PDict kvs) cutoff source_name e = Inr (Some a)"
  shows "link a \<noteq> L"
proof -
  obtain seen where seen: "ledger_links (PDict kvs) = Inr seen"
    using process_entry_needs_links[OF assms(5)] by blast
  have "PStr L \<in> set seen" using ledger_links_member[OF assms(1-4) seen] .
  then show ?thesis using process_entry_new[OF seen _ assms(5)] by blast
qed

lemma example_ledger_links:
  "ledger_links example_ledger = Inr [PStr (ustr ''https://a.example/p/1'')]"
  by (simp add: ledger_links_def bucket_links_def dict_get_def py_iter_def getitem_str_def
      example_ledger_def ustr_def)

lemma example_cutoff: "cutoff_date (now example_env) 7 = Inr 63899395200000000"
  by (simp add: cutoff_date_def example_env_def day_def)

lemma fetch_entries_excl:
  assumes "\<And>src e a. process_entry ev ledger cutoff src e = Inr (Some a) \<Longrightarrow> link a \<noteq> L"
  shows "L \<notin> link ` set articles \<Longrightarrow>
         L \<notin> link ` set (fetch_entries ev ledger cutoff source_name es articles)"
proof (induction es arbitrary: articles)
  case Nil
  then show ?case by simp
next
  case (Cons e es)
  show ?case
  proof (cases "process_entry ev ledger cutoff source_name e")
    case (Inl err)
    then show ?thesis using Cons.prems by simp
  next
    case (Inr r)
    show ?thesis
    proof (cases r)
      case None
      then show ?thesis using Inr Cons by simp
    next
      case (Some a)
      then have "link a \<noteq> L" using assms Inr by blast
      then have "L \<notin> link ` set (articles @ [a])" using Cons.prems by auto
      from Cons.IH[OF this] show ?thesis using Inr Some by simp
    qed
  qed
qed

lemma fetch_feeds_excl:
  assumes "\<And>src e a. process_entry ev ledger cutoff src e = Inr (Some a) \<Longrightarrow> link a \<noteq> L"
  shows "L \<notin> link ` set articles \<Longrightarrow>
         L \<notin> link ` set (foldl (fetch_feed ev ledger cutoff) articles urls)"
proof (induction urls arbitrary: articles)
  case Nil
  then show ?case by simp
next
  case (Cons u urls)
  have "L \<notin> link ` set (fetch_feed ev ledger cutoff articles u)"
    using Cons.prems fetch_entries_excl[OF assms]
    by (simp add: fetch_feed_def Let_def split: sum.splits)
  from Cons.IH[OF this] show ?case by simp
qed

lemma example_record_link:
  "map_of example_record (ustr ''link'') = Some (PStr (ustr ''https://a.example/p/1''))"
  by (simp add: example_record_def ustr_def)

lemma example_buckets:
  "map_of example_reviewed_items (ustr ''reviewed'') = Some (PList [PDict example_record])"
  "map_of example_featured_items (ustr ''featured'') = Some (PList [PDict example_record])"
  by (simp_all add: example_reviewed_items_def example_featured_items_def ustr_def)

text \<open>
  C3. When a record of the featured list or of the reviewed list of the ledger has the
  link \<open>L\<close>, a fetch pass returns a list of articles none of which has the link \<open>L\<close>,
  whatever the entries of the feeds contain.
\<close>

theorem fetch_skips_processed:
  assumes "bucket = ustr ''featured'' \<or> bucket = ustr ''reviewed''"
    and "map_of kvs bucket = Some (PList records)"
    and "PDict d \<in> set records"
    and "map_of d (ustr ''link'') = Some (PStr L)"
    and "cutoff_date (now ev) days_back = Inr cutoff"
  shows "\<exists>articles. fetch_recent_articles ev (PDict kvs) days_back = Inr articles \<and>
                     L \<notin> link ` set articles"
proof -
  have pe: "\<And>src e a. process_entry ev (PDict kvs) cutoff src e = Inr (Some a) \<Longrightarrow> link a \<noteq> L"
    using process_entry_skips[OF assms(1-4)] .
  have "L \<notin> link ` set (foldl (fetch_feed ev (PDict kvs) cutoff) [] newsletter_feeds)"
    using fetch_feeds_excl[of ev "PDict kvs" cutoff L "[]" newsletter_feeds] pe by simp
  then show ?thesis
    using assms(5) by (simp add: fetch_recent_articles_def)
qed

theorem fetch_skips_processed_witness:
  "map_of example_reviewed_items (ustr ''reviewed'') = Some (PList [PDict example_record]) \<and>
   map_of example_featured_items (ustr ''featured'') = Some (PList [PDict example_record]) \<and>
   PDict example_record \<in> set [PDict example_record] \<and>
   map_of example_record (ustr ''link'') = Some (PStr (ustr ''https://a.example/p/1'')) \<and>
   cutoff_date (now example_env) 7 = Inr 63899395200000000 \<and>
   (\<exists>articles. fetch_recent_articles example_env (PDict example_reviewed_items) 7 = Inr articles \<and>
                ustr ''https://a.example/p/1'' \<notin> link ` set articles) \<and>
   (\<exists>articles. fetch_recent_articles example_env (PDict example_featured_items) 7 = Inr articles \<and>
                ustr ''https://a.example/p/1'' \<notin> link ` set articles)"
proof -
  have m: "PDict example_record \<in> set [PDict example_record]" by simp
  have r: "\<exists>articles. fetch_recent_articles example_env (PDict example_reviewed_items) 7 = Inr articles \<and>
                ustr ''https://a.example/p/1'' \<notin> link ` set articles"
    using fetch_skips_processed[OF _ example_buckets(1) m example_record_link example_cutoff]
    by blast
  have f: "\<exists>articles. fetch_recent_articles example_env (PDict example_featured_items) 7 = Inr articles \<and>
                ustr ''https://a.example/p/1'' \<notin> link ` set articles"
    using fetch_skips_processed[OF _ example_buckets(2) m example_record_link example_cutoff]
    by blast
  show ?thesis
    using example_buckets m example_record_link example_cutoff r f by blast
qed

section \<open>C7: summaries fail soft\<close>

text \<open>
  C7. When the summarization call raises an exception or returns a malformed message
  (no content block, or a first block without text), \<open>summarize_article\<close> returns the fixed
  placeholder and raises nothing.
\<close>

theorem summarize_article_fails_soft:
  assumes "create ev (prompt a) = ApiError \<or> create ev (prompt a) = Message [] \<or>
           (\<exists>bs. create ev (prompt a) = Message (OtherBlock # bs))"
  shows "summarize_article ev a = Inr (ustr ''Summary unavailable.'')"
  using assms by (auto simp: summarize_article_def)

theorem summarize_article_fails_soft_witness:
  "create example_env (prompt (example_article 1200 3)) = ApiError \<and>
   summarize_article example_env (example_article 1200 3) = Inr (ustr ''Summary unavailable.'')"
proof -
  have h: "create example_env (prompt (example_article 1200 3)) = ApiError"
    by (simp add: example_env_def)
  then show ?thesis
    using summarize_article_fails_soft[of example_env "example_article 1200 3"] by blast
qed

section \<open>C6: a run without new articles\<close>

lemma fetch_entries_seen:
  assumes "ledger_links ledger = Inr seen"
  shows "\<forall>e\<in>set es. \<exists>l. e_link e = Some l \<and> PStr l \<in> set seen \<and> e_published_parsed e \<noteq> BadDate \<Longrightarrow>
         fetch_entries ev ledger cutoff source_name es articles = articles"
proof (induction es)
  case Nil
  then show ?case by simp
next
  case (Cons e es)
  then obtain l where "e_link e = Some l" "PStr l \<in> set seen" "e_published_parsed e \<noteq> BadDate"
    by auto
  then have "process_entry ev ledger cutoff source_name e = Inr None"
    using assms by (auto simp: process_entry_def Let_def split: parsed_date.splits)
  then show ?case using Cons by simp
qed

lemma foldl_fixed: "(\<And>u. f a u = a) \<Longrightarrow> foldl f a us = a"
  by (induction us) simp_all

lemma example_fetch: "fetch_recent_articles example_env example_ledger 7 = Inr []"
proof -
  have "fetch_feed example_env example_ledger 63899395200000000 [] u = []" for u
    using fetch_entries_seen[OF example_ledger_links, of "[example_entry]"]
    by (simp add: fetch_feed_def example_env_def example_entry_def)
  then have "foldl (fetch_feed example_env example_ledger 63899395200000000) [] newsletter_feeds = []"
    by (rule foldl_fixed)
  then show ?thesis
    by (simp add: fetch_recent_articles_def example_cutoff)
qed

text \<open>
  C6. When the fetch step yields no new article, \<open>run_digest\<close> returns without a digest:
  no file is written and the ledger, in memory and on disk, is as before.
\<close>

theorem run_digest_no_articles:
  assumes "fetch_recent_articles ev (processed_articles st) days_back = Inr []"
  shows "run_digest ev st days_back featured_count = (st, Inr None)"
  using assms by (simp add: run_digest_def)

theorem run_digest_no_articles_witness:
  "fetch_recent_articles example_env
     (processed_articles \<lparr>processed_articles = example_ledger, processed_file = None,
                           digest_files = []\<rparr>) 7 = Inr [] \<and>
   run_digest example_env
     \<lparr>processed_articles = example_ledger, processed_file = None, digest_files = []\<rparr> 7 7
     = (\<lparr>processed_articles = example_ledger, processed_file = None, digest_files = []\<rparr>,
        Inr None)"
proof -
  have h: "fetch_recent_articles example_env
     (processed_articles \<lparr>processed_articles = example_ledger, processed_file = None,
                           digest_files = []\<rparr>) 7 = Inr []"
    using example_fetch by simp
  show ?thesis
    using h run_digest_no_articles[OF h, of 7] by blast
qed

section \<open>C9: the category sections of the digest\<close>

lemma append_at_key_keys:
  "map fst (map (\<lambda>kv. if fst kv = c then (fst kv, snd kv @ [a]) else kv) e) = map fst e"
  by (induction e) auto

lemma add_to_category_keys:
  assumes "distinct (map fst d)"
  shows "distinct (map fst (add_to_category d a))"
proof (cases "categorize_newsletter (source a) \<in> fst ` set d")
  case True
  then show ?thesis
    using assms unfolding add_to_category_def Let_def append_at_key_keys by simp
next
  case False
  then show ?thesis
    using assms unfolding add_to_category_def Let_def append_at_key_keys by simp
qed

lemma append_at_key_ok:
  assumes "\<forall>x\<in>set e. fst x = categorize_newsletter (source a) \<or> section_ok x"
    and "\<forall>x\<in>set e. fst x = categorize_newsletter (source a) \<longrightarrow>
           (\<forall>b\<in>set (snd x). categorize_newsletter (source b) = fst x)"
  shows "\<forall>x\<in>set (map (\<lambda>kv. if fst kv = categorize_newsletter (source a)
                               then (fst kv, snd kv @ [a]) else kv) e). section_ok x"
proof
  fix x
  assume "x \<in> set (map (\<lambda>kv. if fst kv = categorize_newsletter (source a)
                               then (fst kv, snd kv @ [a]) else kv) e)"
  then obtain kv where kv: "kv \<in> set e"
    and x: "x = (if fst kv = categorize_newsletter (source a) then (fst kv, snd kv @ [a]) else kv)"
    unfolding set_map by blast
  show "section_ok x"
  proof (cases "fst kv = categorize_newsletter (source a)")
    case True
    then have "\<forall>b\<in>set (snd kv). categorize_newsletter (source b) = fst kv"
      using assms(2) kv by blast
    then show ?thesis using True x by (simp add: section_ok_def)
  next
    case False
    then show ?thesis using assms(1) kv x by auto
  qed
qed

lemma add_to_category_ok:
  assumes "\<forall>x\<in>set d. section_ok x"
  shows "\<forall>x\<in>set (add_to_category d a). section_ok x"
proof -
  let ?c = "categorize_newsletter (source a)"
  let ?e = "if ?c \<notin> fst ` set d then d @ [(?c, [])] else d"
  have 1: "\<forall>x\<in>set ?e. fst x = ?c \<or> section_ok x"
    using assms by auto
  have 2: "\<forall>x\<in>set ?e. fst x = ?c \<longrightarrow> (\<forall>b\<in>set (snd x). categorize_newsletter (source b) = fst x)"
    using assms by (auto simp: section_ok_def)
  show ?thesis
    unfolding add_to_category_def Let_def using append_at_key_ok[OF 1 2] .
qed

lemma append_at_key_mset:
  "distinct (map fst d) \<Longrightarrow> c \<in> fst ` set d \<Longrightarrow>
   mset (concat (map snd (map (\<lambda>kv. if fst kv = c then (fst kv, snd kv @ [a]) else kv) d)))
     = mset (concat (map snd d)) + {#a#}"
proof (induction d)
  case Nil
  then show ?case by simp
next
  case (Cons kv d)
  show ?case
  proof (cases "fst kv = c")
    case True
    then have "c \<notin> fst ` set d" using Cons.prems(1) by auto
    then have "map (\<lambda>kv. if fst kv = c then (fst kv, snd kv @ [a]) else kv) d = d"
      by (intro map_idI) auto
    then show ?thesis using True by simp
  next
    case False
    then have "c \<in> fst ` set d" using Cons.prems(2) by auto
    moreover have "distinct (map fst d)" using Cons.prems(1) by simp
    ultimately show ?thesis using Cons.IH False by simp
  qed
qed

lemma add_to_category_mset:
  assumes "distinct (map fst d)"
  shows "mset (concat (map snd (add_to_category d a))) = mset (concat (map snd d)) + {#a#}"
proof (cases "categorize_newsletter (source a) \<in> fst ` set d")
  case True
  then show ?thesis
    using append_at_key_mset[OF assms True] by (simp add: add_to_category_def Let_def)
next
  case False
  let ?c = "categorize_newsletter (source a)"
  have "distinct (map fst (d @ [(?c, [])]))" using assms False by auto
  moreover have "?c \<in> fst ` set (d @ [(?c, [])])" by simp
  ultimately have "mset (concat (map snd (map (\<lambda>kv. if fst kv = ?c then (fst kv, snd kv @ [a]) else kv)
        (d @ [(?c, [])])))) = mset (concat (map snd (d @ [(?c, [])]))) + {#a#}"
    by (rule append_at_key_mset)
  then show ?thesis
    using False by (simp add: add_to_category_def Let_def)
qed

lemma categorize_foldl:
  "distinct (map fst d) \<Longrightarrow> \<forall>x\<in>set d. section_ok x \<Longrightarrow>
   distinct (map fst (foldl add_to_category d as)) \<and>
   (\<forall>x\<in>set (foldl add_to_category d as). section_ok x) \<and>
   mset (concat (map snd (foldl add_to_category d as))) = mset (concat (map snd d)) + mset as"
proof (induction as arbitrary: d)
  case Nil
  then show ?case by simp
next
  case (Cons a as)
  have 1: "distinct (map fst (add_to_category d a))"
    using Cons.prems(1) by (rule add_to_category_keys)
  have 2: "\<forall>x\<in>set (add_to_category d a). section_ok x"
    using Cons.prems(2) by (rule add_to_category_ok)
  show ?case
    using Cons.IH[OF 1 2] add_to_category_mset[OF Cons.prems(1), of a] by simp
qed

lemma categorize_all_props:
  "distinct (map fst (categorize_all as))"
  "\<forall>x\<in>set (categorize_all as). section_ok x"
  "mset (concat (map snd (categorize_all as))) = mset as"
  using categorize_foldl[of "[]" as] by (simp_all add: categorize_all_def)

lemma sorted_reverse_set: "set (sorted_reverse key xs) = set xs"
  by (simp add: sorted_reverse_def)

lemma sorted_reverse_length: "length (sorted_reverse key xs) = length xs"
  by (simp add: sorted_reverse_def)

lemma mset_concat_perm:
  "mset xss = mset yss \<Longrightarrow> mset (concat (map f xss)) = mset (concat (map f yss))"
proof -
  assume p: "mset xss = mset yss"
  have "mset (concat (map f zs)) = (\<Sum>z\<in>#mset zs. mset (f z))" for zs :: "'a list"
    by (induction zs) simp_all
  then show ?thesis using p by simp
qed

lemma mset_concat_sum: "mset (concat (map f zs)) = (\<Sum>z\<in>#mset zs. mset (f z))"
  by (induction zs) simp_all

lemma category_sections_html:
  "concat (map (\<lambda>x. CategoryOpen (fst x) (length (snd x)) # map OtherItem (snd x) @ [CategoryClose])
                (category_sections others))
   = concat (map render_category (sorted_reverse (\<lambda>x. length (snd x)) (categorize_all others)))"
proof -
  have "render_category = (\<lambda>x. CategoryOpen (fst x) (length (snd x))
          # map OtherItem (sorted_reverse quality_score (snd x)) @ [CategoryClose])"
    by (rule ext) (simp add: render_category_def)
  then show ?thesis
    by (simp add: category_sections_def o_def sorted_reverse_length)
qed

lemma category_sections_distinct: "distinct (map fst (category_sections others))"
proof -
  let ?ys = "sorted_reverse (\<lambda>x. length (snd x)) (categorize_all others)"
  have "mset (map fst ?ys) = mset (map fst (categorize_all others))"
    by (simp add: sorted_reverse_mset)
  then have "distinct (map fst ?ys)"
    using categorize_all_props(1)[of others] mset_eq_imp_distinct_iff by blast
  moreover have "map fst (category_sections others) = map fst ?ys"
    by (simp add: category_sections_def o_def)
  ultimately show ?thesis by simp
qed

lemma category_sections_member:
  assumes "x \<in> set (category_sections others)"
  shows "snd x \<noteq> [] \<and> (\<forall>a\<in>set (snd x). categorize_newsletter (source a) = fst x) \<and>
         sorted (rev (map quality_score (snd x)))"
proof -
  from assms obtain y where y: "y \<in> set (categorize_all others)"
    and x: "x = (fst y, sorted_reverse quality_score (snd y))"
    by (auto simp: category_sections_def sorted_reverse_set)
  have ok: "section_ok y" using categorize_all_props(2) y by blast
  have "length (snd x) = length (snd y)" using x by (simp add: sorted_reverse_length)
  then have "snd x \<noteq> []" using ok by (auto simp: section_ok_def)
  moreover have "\<forall>a\<in>set (snd x). categorize_newsletter (source a) = fst x"
    using ok x by (simp add: section_ok_def sorted_reverse_set)
  moreover have "sorted (rev (map quality_score (snd x)))"
    using x by (simp add: sorted_reverse_sorted)
  ultimately show ?thesis by blast
qed

lemma category_sections_mset: "mset (concat (map snd (category_sections others))) = mset others"
proof -
  let ?ys = "sorted_reverse (\<lambda>x. length (snd x)) (categorize_all others)"
  have "mset (concat (map snd (category_sections others)))
        = mset (concat (map (\<lambda>y. sorted_reverse quality_score (snd y)) ?ys))"
    by (simp add: category_sections_def o_def)
  also have "\<dots> = (\<Sum>y\<in>#mset ?ys. mset (snd y))"
    by (simp add: mset_concat_sum sorted_reverse_mset)
  also have "\<dots> = (\<Sum>y\<in>#mset (categorize_all others). mset (snd y))"
    by (simp add: sorted_reverse_mset)
  also have "\<dots> = mset (concat (map snd (categorize_all others)))"
    by (simp add: mset_concat_sum)
  finally show ?thesis by (simp add: categorize_all_props(3))
qed

lemma category_sections_counts:
  "sorted (rev (map (\<lambda>x. length (snd x)) (category_sections others)))"
proof -
  have "map (\<lambda>x. length (snd x)) (category_sections others)
        = map (\<lambda>x. length (snd x)) (sorted_reverse (\<lambda>x. length (snd x)) (categorize_all others))"
    by (simp add: category_sections_def o_def sorted_reverse_length)
  then show ?thesis by (simp add: sorted_reverse_sorted)
qed

lemma example_other_sel:
  "source (example_other src s) = src" "quality_score (example_other src s) = Fin s"
  by (simp_all add: example_other_def)

lemma example_lookups:
  "map_of source_categories (ustr ''AI Cadence'') = Some (ustr ''Strategy & Business'')"
  "map_of source_categories (ustr ''The Strategy Stack'') = Some (ustr ''Strategy & Business'')"
  "map_of source_categories (ustr ''Unlisted'') = None"
  by (simp_all add: source_categories_def ustr_def)

lemma example_names: "ustr ''Strategy & Business'' \<noteq> ustr ''Other''"
  by (simp add: ustr_def)

lemma example_categorized3:
  "categorize_all example_others =
     [(ustr ''Other'', [example_other (ustr ''Unlisted'') 30]),
      (ustr ''Strategy & Business'',
       [example_other (ustr ''AI Cadence'') 10, example_other (ustr ''The Strategy Stack'') 50])]"
  using example_names
  by (simp add: categorize_all_def example_others_def add_to_category_def Let_def
      categorize_newsletter_def example_other_sel example_lookups)

lemma example_sections3:
  "category_sections example_others =
     [(ustr ''Strategy & Business'',
       [example_other (ustr ''The Strategy Stack'') 50, example_other (ustr ''AI Cadence'') 10]),
      (ustr ''Other'', [example_other (ustr ''Unlisted'') 30])]"
  unfolding category_sections_def example_categorized3
  by (simp add: sorted_reverse_def example_other_sel)

lemma category_sections_table:
  assumes "x \<in> set (category_sections others)" "a \<in> set (snd x)"
  shows "fst x = (case map_of source_categories (source a) of
                    Some c \<Rightarrow> c | None \<Rightarrow> ustr ''Other'')"
  using category_sections_member[OF assms(1)] assms(2)
  by (auto simp: categorize_newsletter_def)

text \<open>
  C9. The rendered digest lists the other articles in category sections: every article
  is in the one section whose name is the category that the static lookup table gives
  its source ("Other" when the table has no entry for it), the sections are in
  non-increasing order of their number of articles, and the articles of a section are
  in non-increasing order of score.
\<close>

theorem digest_groups_by_category:
  "generate_digest_html ev featured others =
     [Header (today ev) (length featured) (length others), FeaturedHeading]
     @ map FeaturedItem featured
     @ (if others = [] then []
        else [OtherOpen]
             @ concat (map (\<lambda>x. CategoryOpen (fst x) (length (snd x))
                                  # map OtherItem (snd x) @ [CategoryClose])
                           (category_sections others))
             @ [OtherClose])
     @ [Footer] \<and>
   distinct (map fst (category_sections others)) \<and>
   (\<forall>x\<in>set (category_sections others).
       snd x \<noteq> [] \<and> (\<forall>a\<in>set (snd x). categorize_newsletter (source a) = fst x) \<and>
       (\<forall>a\<in>set (snd x). fst x = (case map_of source_categories (source a) of
                                       Some c \<Rightarrow> c | None \<Rightarrow> ustr ''Other'')) \<and>
       sorted (rev (map quality_score (snd x)))) \<and>
   mset (concat (map snd (category_sections others))) = mset others \<and>
   sorted (rev (map (\<lambda>x. length (snd x)) (category_sections others)))"
proof (intro conjI)
  show "generate_digest_html ev featured others =
     [Header (today ev) (length featured) (length others), FeaturedHeading]
     @ map FeaturedItem featured
     @ (if others = [] then []
        else [OtherOpen]
             @ concat (map (\<lambda>x. CategoryOpen (fst x) (length (snd x))
                                  # map OtherItem (snd x) @ [CategoryClose])
                           (category_sections others))
             @ [OtherClose])
     @ [Footer]"
    unfolding category_sections_html by (simp add: generate_digest_html_def Let_def)
  show "distinct (map fst (category_sections others))"
    by (rule category_sections_distinct)
  show "\<forall>x\<in>set (category_sections others).
       snd x \<noteq> [] \<and> (\<forall>a\<in>set (snd x). categorize_newsletter (source a) = fst x) \<and>
       (\<forall>a\<in>set (snd x). fst x = (case map_of source_categories (source a) of
                                       Some c \<Rightarrow> c | None \<Rightarrow> ustr ''Other'')) \<and>
       sorted (rev (map quality_score (snd x)))"
    using category_sections_member category_sections_table by blast
  show "mset (concat (map snd (category_sections others))) = mset others"
    by (rule category_sections_mset)
  show "sorted (rev (map (\<lambda>x. length (snd x)) (category_sections others)))"
    by (rule category_sections_counts)
qed

theorem digest_groups_by_category_witness:
  "category_sections example_others =
     [(ustr ''Strategy & Business'',
       [example_other (ustr ''The Strategy Stack'') 50, example_other (ustr ''AI Cadence'') 10]),
      (ustr ''Other'', [example_other (ustr ''Unlisted'') 30])] \<and>
   generate_digest_html example_env [] example_others =
     [Header (today example_env) 0 3, FeaturedHeading, OtherOpen,
      CategoryOpen (ustr ''Strategy & Business'') 2,
      OtherItem (example_other (ustr ''The Strategy Stack'') 50),
      OtherItem (example_other (ustr ''AI Cadence'') 10), CategoryClose,
      CategoryOpen (ustr ''Other'') 1,
      OtherItem (example_other (ustr ''Unlisted'') 30), CategoryClose,
      OtherClose, Footer] \<and>
   ustr ''Strategy & Business'' =
     (case map_of source_categories (source (example_other (ustr ''AI Cadence'') 10)) of
        Some c \<Rightarrow> c | None \<Rightarrow> ustr ''Other'') \<and>
   ustr ''Other'' =
     (case map_of source_categories (source (example_other (ustr ''Unlisted'') 30)) of
        Some c \<Rightarrow> c | None \<Rightarrow> ustr ''Other'') \<and>
   sorted (rev (map quality_score
     [example_other (ustr ''The Strategy Stack'') 50, example_other (ustr ''AI Cadence'') 10])) \<and>
   sorted (rev (map (\<lambda>x. length (snd x)) (category_sections example_others)))"
proof -
  let ?s1 = "example_other (ustr ''The Strategy Stack'') 50"
  let ?s2 = "example_other (ustr ''AI Cadence'') 10"
  let ?o = "example_other (ustr ''Unlisted'') 30"
  let ?x = "(ustr ''Strategy & Business'', [?s1, ?s2])"
  let ?y = "(ustr ''Other'', [?o])"
  note T = digest_groups_by_category[of example_env "[]" example_others]
  have ne: "example_others \<noteq> []" by (simp add: example_others_def)
  have len: "length example_others = 3" by (simp add: example_others_def)
  have mx: "?x \<in> set (category_sections example_others)"
    and my: "?y \<in> set (category_sections example_others)"
    unfolding example_sections3 by simp_all
  have all: "\<forall>x\<in>set (category_sections example_others).
       (\<forall>a\<in>set (snd x). fst x = (case map_of source_categories (source a) of
                                       Some c \<Rightarrow> c | None \<Rightarrow> ustr ''Other'')) \<and>
       sorted (rev (map quality_score (snd x)))"
    using T by blast
  have tx: "\<forall>a\<in>set (snd ?x). fst ?x = (case map_of source_categories (source a) of
                                       Some c \<Rightarrow> c | None \<Rightarrow> ustr ''Other'')"
    and sx: "sorted (rev (map quality_score (snd ?x)))"
    using all mx by blast+
  have ty: "\<forall>a\<in>set (snd ?y). fst ?y = (case map_of source_categories (source a) of
                                       Some c \<Rightarrow> c | None \<Rightarrow> ustr ''Other'')"
    using all my by blast
  have "?s2 \<in> set (snd ?x)" by simp
  from bspec[OF tx this]
  have c1: "ustr ''Strategy & Business'' =
     (case map_of source_categories (source ?s2) of Some c \<Rightarrow> c | None \<Rightarrow> ustr ''Other'')"
    by (simp only: fst_conv)
  have "?o \<in> set (snd ?y)" by simp
  from bspec[OF ty this]
  have c2: "ustr ''Other'' =
     (case map_of source_categories (source ?o) of Some c \<Rightarrow> c | None \<Rightarrow> ustr ''Other'')"
    by (simp only: fst_conv)
  have c3: "sorted (rev (map quality_score [?s1, ?s2]))"
    using sx by (simp only: snd_conv)
  have c4: "sorted (rev (map (\<lambda>x. length (snd x)) (category_sections example_others)))"
    using T by blast
  have "generate_digest_html example_env [] example_others =
     [Header (today example_env) (length ([] :: article list)) (length example_others), FeaturedHeading]
     @ map FeaturedItem []
     @ (if example_others = [] then []
        else [OtherOpen]
             @ concat (map (\<lambda>x. CategoryOpen (fst x) (length (snd x))
                                  # map OtherItem (snd x) @ [CategoryClose])
                           (category_sections example_others))
             @ [OtherClose])
     @ [Footer]"
    using T by blast
  then have c5: "generate_digest_html example_env [] example_others =
     [Header (today example_env) 0 3, FeaturedHeading, OtherOpen,
      CategoryOpen (ustr ''Strategy & Business'') 2, OtherItem ?s1, OtherItem ?s2, CategoryClose,
      CategoryOpen (ustr ''Other'') 1, OtherItem ?o, CategoryClose,
      OtherClose, Footer]"
    unfolding example_sections3 using ne len by simp
  show ?thesis
    using example_sections3 c1 c2 c3 c4 c5 by blast
qed

end
